theory Spec2Isabelle
  imports Complex_Main "HOL-Library.Word" "HOL-Library.Log_Nat" "HOL-Library.Sublist"
begin

section \<open>Data model of main.cpp\<close>

text \<open>
  The C++ \<^verbatim>\<open>int\<close> is a 32-bit two's-complement integer and \<^verbatim>\<open>uint8_t\<close> a byte.
  Signed overflow is undefined in C++; the model takes the wrap-around that the usual
  targets give, so \<open>+\<close>, \<open>-\<close> and \<open>*\<close> on \<open>int32\<close> wrap, comparisons are the signed
  ones (\<open><s\<close>), and \<open>sint\<close> reads the value.
\<close>

type_synonym int32 = "32 word"
type_synonym uint8 = "8 word"

text \<open>
  \<^verbatim>\<open>struct image { int width, height; int format; uint8_t *data; }\<close> with
  format 0=GRAY, 1=RGB, 2=BGR. The pointer \<^verbatim>\<open>data\<close> is modelled by the contents of the
  buffer it points to, a list of bytes; reading or writing past its end is a fault.
\<close>

record image =
  width :: int32
  height :: int32
  format :: int32
  data :: "uint8 list"

text \<open>\<^verbatim>\<open>struct box { int x1, y1; int x2, y2; int type; }\<close>\<close>

record box =
  x1 :: int32
  y1 :: int32
  x2 :: int32
  y2 :: int32
  type :: int32

text \<open>\<^verbatim>\<open>struct frame { image img; std::vector<box> boxes; }\<close>\<close>

record frame =
  img :: image
  boxes :: "box list"

datatype fault = OutOfBounds

section \<open>Integer helpers of the standard library\<close>

text \<open>\<^verbatim>\<open>std::max(a, b)\<close> is \<^verbatim>\<open>(a < b) ? b : a\<close> and \<^verbatim>\<open>std::min(a, b)\<close> is
  \<^verbatim>\<open>(b < a) ? b : a\<close>, on signed ints.\<close>

definition std_max :: "int32 \<Rightarrow> int32 \<Rightarrow> int32" where
  "std_max a b = (if a <s b then b else a)"

definition std_min :: "int32 \<Rightarrow> int32 \<Rightarrow> int32" where
  "std_min a b = (if b <s a then b else a)"

section \<open>Single-precision floating point\<close>

text \<open>
  A \<^verbatim>\<open>float\<close> is an IEEE 754 binary32 value: a finite number (given by its exact real
  value), an infinity, or NaN. The two zeros are identified: the program only
  returns and compares floats, and \<^verbatim>\<open>>=\<close> does not tell them apart. Conversions
  and divisions round to nearest, ties to even, the default rounding mode.
\<close>

datatype f32 = Finite real | PosInf | NegInf | NaN

text \<open>\<^verbatim>\<open>a >= b\<close> on floats: false as soon as one side is NaN.\<close>

fun f32_ge :: "f32 \<Rightarrow> f32 \<Rightarrow> bool" where
  "f32_ge NaN b = False"
| "f32_ge a NaN = False"
| "f32_ge (Finite a) (Finite b) = (b \<le> a)"
| "f32_ge PosInf b = True"
| "f32_ge a NegInf = True"
| "f32_ge a b = False"

text \<open>
  Round to nearest, ties to even: the integer nearest to \<open>n / d\<close> for \<open>0 \<le> n\<close> and
  \<open>0 < d\<close>.
\<close>

definition rne :: "int \<Rightarrow> int \<Rightarrow> int" where
  "rne n d =
     (let m = n div d; r = n mod d
      in if 2 * r < d then m
         else if d < 2 * r then m + 1
         else if even m then m else m + 1)"

text \<open>
  \<^verbatim>\<open>static_cast<float>(k)\<close> for an int \<open>k\<close>: the value of the nearest binary32 number,
  which has a 24-bit significand. The result is again an integer; it is exactly \<open>k\<close>
  when \<open>\<bar>k\<bar> < 2 ^ 24\<close>.
\<close>

definition float_of_int :: "int \<Rightarrow> int" where
  "float_of_int k =
     (let s = nat (bitlen \<bar>k\<bar> - 24)
      in sgn k * (rne \<bar>k\<bar> (2 ^ s) * 2 ^ s))"

text \<open>The binary exponent of \<open>a / b\<close> for positive \<open>a\<close> and \<open>b\<close>: the \<open>e\<close> with
  \<open>2 ^ e \<le> a / b < 2 ^ (e + 1)\<close>.\<close>

definition quot_exponent :: "int \<Rightarrow> int \<Rightarrow> int" where
  "quot_exponent a b =
     (let e = bitlen a - bitlen b
      in if (if 0 \<le> e then b * 2 ^ nat e \<le> a else b \<le> a * 2 ^ nat (- e)) then e else e - 1)"

text \<open>
  The quotient \<open>a / b\<close> of positive integers rounded to binary32: the significand
  \<open>a / b / 2 ^ (e - 23)\<close> is rounded to an integer. Both operands come from
  32-bit ints, so the quotient lies between \<open>2 ^ - 31\<close> and \<open>2 ^ 31\<close>, inside the
  normal range of binary32: no overflow and no subnormal result.
\<close>

definition round_quot :: "int \<Rightarrow> int \<Rightarrow> real" where
  "round_quot a b =
     (let e = quot_exponent a b
      in if e \<le> 23 then real_of_int (rne (a * 2 ^ nat (23 - e)) b) / 2 ^ nat (23 - e)
         else real_of_int (rne a (b * 2 ^ nat (e - 23)) * 2 ^ nat (e - 23)))"

text \<open>
  \<^verbatim>\<open>a / b\<close> on two floats whose values are the integers \<open>a\<close> and \<open>b\<close> (both are
  conversions of ints here): \<open>0 / 0\<close> is NaN, a nonzero value over zero is an
  infinity of the sign of \<open>a\<close> (the zero divisor is the positive zero), and any
  other quotient is rounded.
\<close>

definition float_div :: "int \<Rightarrow> int \<Rightarrow> f32" where
  "float_div a b =
     (if b = 0 then (if a = 0 then NaN else if 0 < a then PosInf else NegInf)
      else if a = 0 then Finite 0
      else Finite (real_of_int (sgn a * sgn b) * round_quot \<bar>a\<bar> \<bar>b\<bar>))"

section \<open>calculate_iou\<close>

text \<open>
  Lines 41-57. The numerator is converted by the cast, the int denominator by the
  usual arithmetic conversions; the division is a float division.
\<close>

definition calculate_iou :: "box \<Rightarrow> box \<Rightarrow> f32" where
  "calculate_iou b1 b2 =
     (let x_left = std_max (x1 b1) (x1 b2);
          x_right = std_min (x2 b1) (x2 b2);
          y_top = std_max (y1 b1) (y1 b2);
          y_bottom = std_min (y2 b1) (y2 b2)
      in if x_right <s x_left \<or> y_bottom <s y_top then Finite 0
         else
           let intersection = (x_right - x_left) * (y_bottom - y_top);
               b1_area = (x2 b1 - x1 b1) * (y2 b1 - y1 b1);
               b2_area = (x2 b2 - x1 b2) * (y2 b2 - y1 b2)
           in float_div (float_of_int (sint intersection))
                (float_of_int (sint (b1_area + b2_area - intersection))))"

section \<open>frame_clean\<close>

text \<open>
  Lines 69-75, the inner loop over \<open>j\<close> from \<open>i + 1\<close>: every box that overlaps
  \<open>boxes[i]\<close> at or above the threshold loses its flag.
\<close>

function clean_inner :: "box list \<Rightarrow> f32 \<Rightarrow> nat \<Rightarrow> nat \<Rightarrow> bool list \<Rightarrow> bool list" where
  "clean_inner bs threshold i j keep =
     (if j < length bs
      then clean_inner bs threshold i (j + 1)
             (if f32_ge (calculate_iou (bs ! i) (bs ! j)) threshold
              then keep[j := False] else keep)
      else keep)"
  by pat_completeness auto
termination
  by (relation "measure (\<lambda>(bs, threshold, i, j, keep). length bs - j)") auto

declare clean_inner.simps [simp del]

text \<open>Lines 65-76, the outer loop over \<open>i\<close>; a box already dropped is skipped.\<close>

function clean_outer :: "box list \<Rightarrow> f32 \<Rightarrow> nat \<Rightarrow> bool list \<Rightarrow> bool list" where
  "clean_outer bs threshold i keep =
     (if i < length bs
      then (if \<not> keep ! i then clean_outer bs threshold (i + 1) keep
            else clean_outer bs threshold (i + 1) (clean_inner bs threshold i (i + 1) keep))
      else keep)"
  by pat_completeness auto
termination
  by (relation "measure (\<lambda>(bs, threshold, i, keep). length bs - i)") auto

declare clean_outer.simps [simp del]

text \<open>Lines 78-83: the boxes whose flag is still set are pushed in index order.\<close>

function clean_collect :: "box list \<Rightarrow> bool list \<Rightarrow> nat \<Rightarrow> box list \<Rightarrow> box list" where
  "clean_collect bs keep i cleaned_boxes =
     (if i < length bs
      then clean_collect bs keep (i + 1)
             (if keep ! i then cleaned_boxes @ [bs ! i] else cleaned_boxes)
      else cleaned_boxes)"
  by pat_completeness auto
termination
  by (relation "measure (\<lambda>(bs, keep, i, cleaned_boxes). length bs - i)") auto

declare clean_collect.simps [simp del]

text \<open>Lines 61-85. The frame is passed by reference; the model returns the updated frame.\<close>

definition frame_clean :: "frame \<Rightarrow> f32 \<Rightarrow> frame" where
  "frame_clean f threshold =
     (let keep = replicate (length (boxes f)) True;
          keep = clean_outer (boxes f) threshold 0 keep;
          cleaned_boxes = clean_collect (boxes f) keep 0 []
      in f\<lparr>boxes := cleaned_boxes\<rparr>)"

section \<open>union_frames\<close>

text \<open>Lines 100-103: \<open>box1\<close> grows to the envelope of both boxes and keeps its type.\<close>

definition merge_box :: "box \<Rightarrow> box \<Rightarrow> box" where
  "merge_box box1 box2 =
     box1\<lparr>x1 := std_min (x1 box1) (x1 box2),
          y1 := std_min (y1 box1) (y1 box2),
          x2 := std_max (x2 box1) (x2 box2),
          y2 := std_max (y2 box1) (y2 box2)\<rparr>"

text \<open>
  Lines 96-107, the inner loop over the boxes of the result: the first box that
  overlaps \<open>box2\<close> at or above the threshold is updated in place and the loop stops.
  Returns the flag \<open>merged\<close> and the boxes of the result.
\<close>

fun union_inner :: "box list \<Rightarrow> box \<Rightarrow> f32 \<Rightarrow> bool \<times> box list" where
  "union_inner [] box2 threshold = (False, [])"
| "union_inner (box1 # rest) box2 threshold =
     (if f32_ge (calculate_iou box1 box2) threshold
      then (True, merge_box box1 box2 # rest)
      else (case union_inner rest box2 threshold of
              (merged, rest') \<Rightarrow> (merged, box1 # rest')))"

text \<open>Lines 93-112, the loop over the boxes of \<open>f2\<close>; the second argument is
  \<open>result.boxes\<close>.\<close>

fun union_outer :: "box list \<Rightarrow> box list \<Rightarrow> f32 \<Rightarrow> box list" where
  "union_outer [] result_boxes threshold = result_boxes"
| "union_outer (box2 # rest) result_boxes threshold =
     (case union_inner result_boxes box2 threshold of
        (merged, result_boxes') \<Rightarrow>
          union_outer rest
            (if \<not> merged then result_boxes' @ [box2] else result_boxes') threshold)"

text \<open>
  Lines 90-115, on the values of the frames. Both frames are passed by (non-const)
  reference, so the model returns the result together with the two frames as they are
  after the call: \<open>(result, f1, f2)\<close>. Where the objects live and which of them the
  body writes is the subject of \<open>union_frames_mem\<close> below.
\<close>

definition union_frames :: "frame \<Rightarrow> frame \<Rightarrow> f32 \<Rightarrow> frame \<times> frame \<times> frame" where
  "union_frames f1 f2 threshold =
     (let result = f1;
          result = result\<lparr>boxes := union_outer (boxes f2) (boxes result) threshold\<rparr>
      in (result, f1, f2))"

section \<open>union_frames on objects in memory\<close>

text \<open>
  The same function with the objects it touches made explicit. A \<^verbatim>\<open>struct image\<close> is
  a handle: its \<^verbatim>\<open>data\<close> member is the address of a pixel buffer. A
  \<^verbatim>\<open>std::vector<box>\<close> owns its elements, which live at an address of their own.
  The memory holds the frame objects that references designate, the elements of
  the vectors and the pixel buffers; an address is an index, and allocation appends.
\<close>

type_synonym addr = nat

record image_obj =
  img_width :: int32
  img_height :: int32
  img_format :: int32
  data_ptr :: addr

record frame_obj =
  frame_img :: image_obj
  boxes_vec :: addr

record memory =
  frame_objs :: "frame_obj list"
  vectors :: "box list list"
  buffers :: "uint8 list list"

text \<open>
  Line 91, \<^verbatim>\<open>frame result = f1\<close>: the copy constructor copies the image handle member
  by member, pointer included, and copies the vector into newly allocated elements.
  \<open>None\<close> when the vector of \<open>f\<close> is not in memory.
\<close>

definition copy_frame :: "memory \<Rightarrow> frame_obj \<Rightarrow> (frame_obj \<times> memory) option" where
  "copy_frame m f =
     (if boxes_vec f < length (vectors m)
      then Some (\<lparr>frame_img = frame_img f, boxes_vec = length (vectors m)\<rparr>,
                 m\<lparr>vectors := vectors m @ [vectors m ! boxes_vec f]\<rparr>)
      else None)"

text \<open>An assignment to the element \<open>i\<close> of the vector at \<open>v\<close> (lines 100-103, through
  the reference \<open>box1\<close>), and \<^verbatim>\<open>push_back\<close> on the vector at \<open>v\<close> (line 110).\<close>

definition write_box :: "memory \<Rightarrow> addr \<Rightarrow> nat \<Rightarrow> box \<Rightarrow> memory" where
  "write_box m v i b = m\<lparr>vectors := (vectors m)[v := (vectors m ! v)[i := b]]\<rparr>"

definition push_back :: "memory \<Rightarrow> addr \<Rightarrow> box \<Rightarrow> memory" where
  "push_back m v b = m\<lparr>vectors := (vectors m)[v := vectors m ! v @ [b]]\<rparr>"

text \<open>
  Lines 96-107, the inner loop over the elements of \<open>result.boxes\<close>. The four
  assignments of lines 100-103 each read and write one coordinate, so together they
  store \<open>merge_box box1 box2\<close>.
\<close>

function mem_inner :: "memory \<Rightarrow> addr \<Rightarrow> nat \<Rightarrow> box \<Rightarrow> f32 \<Rightarrow> bool \<times> memory" where
  "mem_inner m result_vec i box2 threshold =
     (if i < length (vectors m ! result_vec)
      then (let box1 = vectors m ! result_vec ! i
            in if f32_ge (calculate_iou box1 box2) threshold
               then (True, write_box m result_vec i (merge_box box1 box2))
               else mem_inner m result_vec (i + 1) box2 threshold)
      else (False, m))"
  by pat_completeness auto
termination
  by (relation "measure (\<lambda>(m, result_vec, i, box2, threshold).
        length (vectors m ! result_vec) - i)") auto

declare mem_inner.simps [simp del]

text \<open>
  Lines 93-112, the loop over the elements of \<open>f2.boxes\<close>. The range-based
  \<^verbatim>\<open>for\<close> takes the end of \<open>f2.boxes\<close> once, so the number \<open>n\<close> of iterations is
  fixed; \<open>box2\<close> is read from memory at each iteration.
\<close>

function mem_outer :: "memory \<Rightarrow> addr \<Rightarrow> addr \<Rightarrow> nat \<Rightarrow> nat \<Rightarrow> f32 \<Rightarrow> memory" where
  "mem_outer m f2_vec result_vec k n threshold =
     (if k < n
      then (let box2 = vectors m ! f2_vec ! k
            in case mem_inner m result_vec 0 box2 threshold of
                 (merged, m') \<Rightarrow>
                   mem_outer (if \<not> merged then push_back m' result_vec box2 else m')
                     f2_vec result_vec (k + 1) n threshold)
      else m)"
  by pat_completeness auto
termination
  by (relation "measure (\<lambda>(m, f2_vec, result_vec, k, n, threshold). n - k)") auto

declare mem_outer.simps [simp del]

text \<open>
  Lines 90-115. \<open>f1\<close> and \<open>f2\<close> are the addresses of the two frame objects (the
  references; they may designate the same object); the result is returned by value,
  together with the memory after the call. \<open>None\<close> when a reference or a vector is
  not in memory.
\<close>

definition union_frames_mem ::
    "memory \<Rightarrow> addr \<Rightarrow> addr \<Rightarrow> f32 \<Rightarrow> (frame_obj \<times> memory) option" where
  "union_frames_mem m f1 f2 threshold =
     (if f1 < length (frame_objs m) \<and> f2 < length (frame_objs m)
      then (case copy_frame m (frame_objs m ! f1) of
              None \<Rightarrow> None
            | Some (result, m1) \<Rightarrow>
                let f2_vec = boxes_vec (frame_objs m1 ! f2)
                in if f2_vec < length (vectors m1)
                   then Some (result,
                          mem_outer m1 f2_vec (boxes_vec result) 0
                            (length (vectors m1 ! f2_vec)) threshold)
                   else None)
      else None)"

text \<open>The value of a frame object: its image with the contents of the buffer, and the
  contents of its vector.\<close>

definition frame_of :: "memory \<Rightarrow> frame_obj \<Rightarrow> frame" where
  "frame_of m f =
     \<lparr>img = \<lparr>width = img_width (frame_img f), height = img_height (frame_img f),
             format = img_format (frame_img f), data = buffers m ! data_ptr (frame_img f)\<rparr>,
      boxes = vectors m ! boxes_vec f\<rparr>"

text \<open>A reference designates a frame object whose vector is in memory.\<close>

definition valid_frame :: "memory \<Rightarrow> addr \<Rightarrow> bool" where
  "valid_frame m f \<longleftrightarrow>
     f < length (frame_objs m) \<and> boxes_vec (frame_objs m ! f) < length (vectors m)"

section \<open>rgb2bgr\<close>

text \<open>
  Lines 32-35. \<open>i\<close> counts up to \<open>n = height * width\<close> (it stays below \<open>n\<close>, so \<open>++i\<close>
  does not overflow); \<open>p\<close> is the offset of \<open>ptr\<close> in the buffer. \<open>std::swap\<close> touches
  \<open>ptr[0]\<close> and \<open>ptr[2]\<close>.
\<close>

function rgb2bgr_loop :: "int \<Rightarrow> int \<Rightarrow> nat \<Rightarrow> uint8 list \<Rightarrow> fault + uint8 list" where
  "rgb2bgr_loop i n p d =
     (if i < n
      then (if p + 2 < length d
            then rgb2bgr_loop (i + 1) n (p + 3) (d[p := d ! (p + 2), p + 2 := d ! p])
            else Inl OutOfBounds)
      else Inr d)"
  by pat_completeness auto
termination
  by (relation "measure (\<lambda>(i, n, p, d). nat (n - i))") auto

declare rgb2bgr_loop.simps [simp del]

text \<open>Lines 24-39. The image is passed by reference; the model returns the returned
  flag and the image after the call.\<close>

definition rgb2bgr :: "image \<Rightarrow> fault + (bool \<times> image)" where
  "rgb2bgr im =
     (if format im \<noteq> 1 then Inr (False, im)
      else (case rgb2bgr_loop 0 (sint (height im * width im)) 0 (data im) of
              Inl e \<Rightarrow> Inl e
            | Inr d \<Rightarrow> Inr (True, im\<lparr>data := d, format := 2\<rparr>)))"

section \<open>Notions used in the statements\<close>

text \<open>
  The areas that \<open>calculate_iou\<close> computes, taken over the integers, that is without
  the wrap-around of the 32-bit products, differences and sums: the area
  \<open>(x2 - x1) * (y2 - y1)\<close> of a box, the area of the intersection window, and
  \<open>b1_area + b2_area - intersection\<close>.
\<close>

definition int_area :: "box \<Rightarrow> int" where
  "int_area b = (sint (x2 b) - sint (x1 b)) * (sint (y2 b) - sint (y1 b))"

definition int_intersection :: "box \<Rightarrow> box \<Rightarrow> int" where
  "int_intersection b1 b2 =
     (sint (std_min (x2 b1) (x2 b2)) - sint (std_max (x1 b1) (x1 b2))) *
     (sint (std_min (y2 b1) (y2 b2)) - sint (std_max (y1 b1) (y1 b2)))"

definition int_union :: "box \<Rightarrow> box \<Rightarrow> int" where
  "int_union b1 b2 = int_area b1 + int_area b2 - int_intersection b1 b2"

text \<open>The guard of line 47: \<open>x_left > x_right || y_bottom < y_top\<close>.\<close>

definition window_empty :: "box \<Rightarrow> box \<Rightarrow> bool" where
  "window_empty b1 b2 \<longleftrightarrow>
     std_min (x2 b1) (x2 b2) <s std_max (x1 b1) (x1 b2) \<or>
     std_min (y2 b1) (y2 b2) <s std_max (y1 b1) (y1 b2)"

text \<open>
  The number of pixels of an image, \<open>height * width\<close> over the integers, and the range
  of a 32-bit int.
\<close>

definition pixels :: "image \<Rightarrow> int" where
  "pixels im = sint (height im) * sint (width im)"

definition fits_int :: "int \<Rightarrow> bool" where
  "fits_int k \<longleftrightarrow> - (2 ^ 31) \<le> k \<and> k < 2 ^ 31"

text \<open>The boxes of \<open>bs\<close> whose flag in \<open>keep\<close> is set, in order.\<close>

definition flagged :: "box list \<Rightarrow> bool list \<Rightarrow> box list" where
  "flagged bs keep = map fst (filter snd (zip bs keep))"

text \<open>
  What the two loops of \<open>frame_clean\<close> compute, as a recursion on the list: the first
  box stays, the later boxes that reach the threshold with it are dropped, and the rest
  is treated the same way. \<open>frame_clean_keep_first\<close> below proves that the loops
  compute this.
\<close>

fun keep_first :: "f32 \<Rightarrow> box list \<Rightarrow> box list" where
  "keep_first t [] = []"
| "keep_first t (b # bs) =
     b # keep_first t (filter (\<lambda>c. \<not> f32_ge (calculate_iou b c) t) bs)"

section \<open>Inputs of the tests in main.cpp\<close>

text \<open>The aggregate initialisation \<^verbatim>\<open>{a, b, c, d, t}\<close> of a box.\<close>

definition make_box :: "int32 \<Rightarrow> int32 \<Rightarrow> int32 \<Rightarrow> int32 \<Rightarrow> int32 \<Rightarrow> box" where
  "make_box a b c d t = \<lparr>x1 = a, y1 = b, x2 = c, y2 = d, type = t\<rparr>"

text \<open>The 2x2 RGB image of \<^verbatim>\<open>test_rgb2bgr\<close>.\<close>

definition test_img :: image where
  "test_img = \<lparr>width = 2, height = 2, format = 1,
      data = [255, 0, 0, 0, 255, 0, 0, 0, 255, 255, 255, 255]\<rparr>"

text \<open>The frames of \<^verbatim>\<open>test_frame_clean\<close> and \<^verbatim>\<open>test_union_frames\<close> (the tests leave
  \<open>img\<close> uninitialised; the image of the first test stands in), and a frame without boxes.\<close>

definition test_f :: frame where
  "test_f = \<lparr>img = test_img,
      boxes = [make_box 0 0 4 4 0, make_box 1 1 5 5 0, make_box 5 5 9 9 0]\<rparr>"

definition test_f1 :: frame where
  "test_f1 = \<lparr>img = test_img, boxes = [make_box 0 0 4 4 0, make_box 5 5 9 9 0]\<rparr>"

definition test_f2 :: frame where
  "test_f2 = \<lparr>img = test_img, boxes = [make_box 2 2 6 6 0, make_box 10 10 14 14 0]\<rparr>"

definition no_boxes :: frame where
  "no_boxes = \<lparr>img = test_img, boxes = []\<rparr>"

text \<open>A frame in which one detection is reported twice.\<close>

definition twice :: frame where
  "twice = \<lparr>img = test_img, boxes = [make_box 0 0 4 4 0, make_box 0 0 4 4 0]\<rparr>"

text \<open>The thresholds of the tests, \<^verbatim>\<open>0.3\<close> and \<^verbatim>\<open>0.1\<close>, converted to float.\<close>

definition thr_0_3 :: f32 where
  "thr_0_3 = Finite (10066330 / 2 ^ 25)"

definition thr_0_1 :: f32 where
  "thr_0_1 = Finite (13421773 / 2 ^ 27)"

text \<open>The image of \<^verbatim>\<open>test_rgb2bgr\<close> after its conversion.\<close>

definition test_img_bgr :: image where
  "test_img_bgr = \<lparr>width = 2, height = 2, format = 2,
      data = [0, 0, 255, 0, 255, 0, 255, 0, 0, 255, 255, 255]\<rparr>"

text \<open>A box without extent, and a box of 65536 by 65536.\<close>

definition point_box :: box where
  "point_box = make_box 0 0 0 0 0"

definition wide_box :: box where
  "wide_box = make_box 0 0 65536 65536 0"

text \<open>An RGB image of 65536 by 65536 pixels; its first pixel is \<open>(1, 2, 3)\<close>.\<close>

definition huge_img :: image where
  "huge_img = \<lparr>width = 65536, height = 65536, format = 1,
      data = [1, 2, 3] @ replicate (3 * (2 ^ 32 - 1)) 0\<rparr>"

text \<open>A memory with the two frames of \<^verbatim>\<open>test_union_frames\<close>, both on the image of
  \<^verbatim>\<open>test_rgb2bgr\<close>.\<close>

definition test_mem :: memory where
  "test_mem =
     \<lparr>frame_objs =
        [\<lparr>frame_img = \<lparr>img_width = 2, img_height = 2, img_format = 1, data_ptr = 0\<rparr>,
          boxes_vec = 0\<rparr>,
         \<lparr>frame_img = \<lparr>img_width = 2, img_height = 2, img_format = 1, data_ptr = 0\<rparr>,
          boxes_vec = 1\<rparr>],
      vectors = [boxes test_f1, boxes test_f2],
      buffers = [data test_img]\<rparr>"

section \<open>The tests of main.cpp, replayed on the model\<close>

text \<open>\<^verbatim>\<open>1.0f / 7.0f\<close> is \<open>float_div 1 7\<close>, the binary32 number \<open>9586981 / 2 ^ 26\<close>.\<close>

lemma test_calculate_iou:
  "calculate_iou (make_box 0 0 2 2 0) (make_box 1 1 3 3 0) = float_div 1 7"
  "calculate_iou (make_box 0 0 2 2 0) (make_box 4 4 6 6 0) = Finite 0"
  by code_simp+

lemma one_seventh: "float_div 1 7 = Finite (9586981 / 2 ^ 26)"
  by code_simp

lemma test_frame_clean: "length (boxes (frame_clean test_f thr_0_3)) = 2"
  by code_simp

lemma test_union_frames: "length (boxes (fst (union_frames test_f1 test_f2 thr_0_1))) = 3"
  by code_simp

lemma test_rgb2bgr:
  "rgb2bgr test_img = Inr (True, \<lparr>width = 2, height = 2, format = 2,
      data = [0, 0, 255, 0, 255, 0, 255, 0, 0, 255, 255, 255]\<rparr>)"
  by code_simp

section \<open>calculate_iou: symmetry and the empty window\<close>

lemma std_max_commute: "std_max a b = std_max b a"
  using signed.linorder_cases [of a b] by (auto simp: std_max_def dest: signed.less_asym)

lemma std_min_commute: "std_min a b = std_min b a"
  using signed.linorder_cases [of a b] by (auto simp: std_min_def dest: signed.less_asym)

lemma std_max_ge1: "sint a \<le> sint (std_max a b)"
  and std_max_ge2: "sint b \<le> sint (std_max a b)"
  by (auto simp: std_max_def word_sless_alt)

lemma std_min_le1: "sint (std_min a b) \<le> sint a"
  and std_min_le2: "sint (std_min a b) \<le> sint b"
  by (auto simp: std_min_def word_sless_alt)

lemma calculate_iou_window_empty:
  "std_min (x2 b1) (x2 b2) <s std_max (x1 b1) (x1 b2) \<or>
   std_min (y2 b1) (y2 b2) <s std_max (y1 b1) (y1 b2) \<Longrightarrow> calculate_iou b1 b2 = Finite 0"
  by (auto simp: calculate_iou_def Let_def)

text \<open>
  Claim C6. \<open>calculate_iou\<close> is symmetric: both orders of the arguments return the same
  value. (Where the division is \<open>0 / 0\<close>, both orders return NaN.)
\<close>

theorem calculate_iou_symmetric: "calculate_iou a b = calculate_iou b a"
  unfolding calculate_iou_def
  by (simp add: std_max_commute [of "x1 a"] std_max_commute [of "y1 a"]
      std_min_commute [of "x2 a"] std_min_commute [of "y2 a"] Let_def add.commute)

text \<open>
  Claim C8. When the intersection window is empty, that is \<open>x_left > x_right\<close> or
  \<open>y_bottom < y_top\<close>, \<open>calculate_iou\<close> returns exactly \<open>0.0\<close>; in particular it does
  so for two rectangles that are apart on the x axis or on the y axis.
\<close>

theorem calculate_iou_disjoint:
  "(std_min (x2 b1) (x2 b2) <s std_max (x1 b1) (x1 b2) \<or>
    std_min (y2 b1) (y2 b2) <s std_max (y1 b1) (y1 b2) \<longrightarrow> calculate_iou b1 b2 = Finite 0) \<and>
   (x2 b1 <s x1 b2 \<or> x2 b2 <s x1 b1 \<or> y2 b1 <s y1 b2 \<or> y2 b2 <s y1 b1
      \<longrightarrow> calculate_iou b1 b2 = Finite 0)"
proof (intro conjI impI)
  assume "std_min (x2 b1) (x2 b2) <s std_max (x1 b1) (x1 b2) \<or>
    std_min (y2 b1) (y2 b2) <s std_max (y1 b1) (y1 b2)"
  then show "calculate_iou b1 b2 = Finite 0"
    by (rule calculate_iou_window_empty)
next
  assume apart: "x2 b1 <s x1 b2 \<or> x2 b2 <s x1 b1 \<or> y2 b1 <s y1 b2 \<or> y2 b2 <s y1 b1"
  have "std_min (x2 b1) (x2 b2) <s std_max (x1 b1) (x1 b2) \<or>
    std_min (y2 b1) (y2 b2) <s std_max (y1 b1) (y1 b2)"
    using apart
      std_max_ge1 [of "x1 b1" "x1 b2"] std_max_ge2 [of "x1 b2" "x1 b1"]
      std_min_le1 [of "x2 b1" "x2 b2"] std_min_le2 [of "x2 b1" "x2 b2"]
      std_max_ge1 [of "y1 b1" "y1 b2"] std_max_ge2 [of "y1 b2" "y1 b1"]
      std_min_le1 [of "y2 b1" "y2 b2"] std_min_le2 [of "y2 b1" "y2 b2"]
    unfolding word_sless_alt by linarith
  then show "calculate_iou b1 b2 = Finite 0"
    by (rule calculate_iou_window_empty)
qed

theorem calculate_iou_disjoint_witness:
  "std_min (x2 (make_box 0 0 2 2 0)) (x2 (make_box 4 4 6 6 0))
     <s std_max (x1 (make_box 0 0 2 2 0)) (x1 (make_box 4 4 6 6 0)) \<and>
   x2 (make_box 0 0 2 2 0) <s x1 (make_box 4 4 6 6 0) \<and>
   calculate_iou (make_box 0 0 2 2 0) (make_box 4 4 6 6 0) = Finite 0"
  using calculate_iou_disjoint [of "make_box 0 0 2 2 0" "make_box 4 4 6 6 0"]
  by (simp add: make_box_def std_min_def std_max_def word_sless_alt)

section \<open>union_frames: empty frames and unchanged arguments\<close>

lemma union_inner_length:
  "union_inner res b2 t = (m, res') \<Longrightarrow> length res' = length res"
  by (induction res arbitrary: m res') (auto split: if_splits prod.splits)

lemma union_inner_no_match:
  "\<forall>r\<in>set res. \<not> f32_ge (calculate_iou r b2) t \<Longrightarrow> union_inner res b2 t = (False, res)"
  by (induction res) auto

lemma union_inner_match:
  "r \<in> set res \<Longrightarrow> f32_ge (calculate_iou r b2) t \<Longrightarrow> fst (union_inner res b2 t)"
  by (induction res) (auto split: prod.splits)

lemma union_outer_length:
  "length (union_outer bs res t) \<le> length res + length bs"
proof (induction bs arbitrary: res)
  case Nil
  show ?case by simp
next
  case (Cons b bs)
  obtain m res' where inner: "union_inner res b t = (m, res')"
    by (cases "union_inner res b t")
  have len: "length res' = length res"
    using inner by (rule union_inner_length)
  show ?case
    using Cons.IH [of "if \<not> m then res' @ [b] else res'"] inner len by (simp split: if_splits)
qed

text \<open>
  The loop appends every box of the second frame exactly when none of them reaches
  the threshold with a box that is in the result before it: a box of the first frame or
  an earlier box of the second.
\<close>

lemma union_outer_append_iff:
  "union_outer bs res t = res @ bs \<longleftrightarrow>
     (\<forall>r\<in>set res. \<forall>b\<in>set bs. \<not> f32_ge (calculate_iou r b) t) \<and>
     sorted_wrt (\<lambda>b c. \<not> f32_ge (calculate_iou b c) t) bs"
proof (induction bs arbitrary: res)
  case Nil
  show ?case by simp
next
  case (Cons b bs)
  show ?case
  proof (cases "\<forall>r\<in>set res. \<not> f32_ge (calculate_iou r b) t")
    case True
    then have "union_inner res b t = (False, res)"
      by (rule union_inner_no_match)
    then have "union_outer (b # bs) res t = union_outer bs (res @ [b]) t"
      by simp
    then show ?thesis
      using Cons.IH [of "res @ [b]"] True by auto
  next
    case False
    obtain m res' where inner: "union_inner res b t = (m, res')"
      by (cases "union_inner res b t")
    have m: "m"
      using union_inner_match [of _ res b t] False inner by auto
    have "length res' = length res"
      using inner by (rule union_inner_length)
    then have "length (union_outer (b # bs) res t) \<le> length res + length bs"
      using union_outer_length [of bs res' t] inner m by simp
    then have "union_outer (b # bs) res t \<noteq> res @ b # bs"
      by (auto dest: arg_cong [where f = length])
    then show ?thesis
      using False by auto
  qed
qed

lemma test_f2_apart:
  "\<not> f32_ge (calculate_iou (make_box 2 2 6 6 0) (make_box 10 10 14 14 0)) thr_0_1"
  by code_simp

text \<open>
  Claim C1, as the code has it. With an empty first frame the result holds exactly the
  boxes of the second frame, in their order, if and only if no box of the second frame
  reaches the threshold with an earlier box of the second frame: each box is compared
  with the boxes already appended, and one that matches is merged into the earlier box
  instead of being appended.
\<close>

theorem union_frames_empty_primary:
  "boxes f1 = [] \<Longrightarrow>
   (boxes (fst (union_frames f1 f2 t)) = boxes f2) =
   (\<forall>i j. i < j \<and> j < length (boxes f2) \<longrightarrow>
      \<not> f32_ge (calculate_iou (boxes f2 ! i) (boxes f2 ! j)) t)"
  using union_outer_append_iff [of "boxes f2" "[]" t]
  by (auto simp: union_frames_def sorted_wrt_iff_nth_less)

theorem union_frames_empty_primary_witness:
  "boxes no_boxes = [] \<and>
   boxes (fst (union_frames no_boxes test_f2 thr_0_1)) = boxes test_f2"
proof -
  have empty: "boxes no_boxes = []"
    by (simp add: no_boxes_def)
  have apart: "\<forall>i j. i < j \<and> j < length (boxes test_f2) \<longrightarrow>
      \<not> f32_ge (calculate_iou (boxes test_f2 ! i) (boxes test_f2 ! j)) thr_0_1"
    using test_f2_apart by (auto simp: test_f2_def less_Suc_eq numeral_2_eq_2)
  show ?thesis
    using union_frames_empty_primary [OF empty, of test_f2 thr_0_1] empty apart by blast
qed

text \<open>
  Claim C1 as stated fails: with an empty first frame and a second frame that reports
  the box \<open>(0, 0, 4, 4)\<close> twice, threshold \<open>0.5\<close>, the second copy has IoU \<open>1.0\<close> with
  the first, which is already in the result, and is merged: one box is returned, not two.
\<close>

theorem union_frames_empty_primary_counterexample:
  "boxes no_boxes = [] \<and>
   boxes (fst (union_frames no_boxes twice (Finite (1 / 2)))) = [make_box 0 0 4 4 0] \<and>
   boxes (fst (union_frames no_boxes twice (Finite (1 / 2)))) \<noteq> boxes twice"
  by code_simp

text \<open>
  Claim C5. With a second frame that has no boxes, the result is the first frame
  unchanged: its image, its boxes in their order, and every field of each box.
\<close>

theorem union_frames_empty_secondary:
  "boxes f2 = [] \<Longrightarrow> fst (union_frames f1 f2 threshold) = f1"
  by (simp add: union_frames_def)

theorem union_frames_empty_secondary_witness:
  "boxes no_boxes = [] \<and> fst (union_frames test_f1 no_boxes thr_0_1) = test_f1"
  using union_frames_empty_secondary [of no_boxes test_f1 thr_0_1]
  by (simp add: no_boxes_def)

subsection \<open>The objects that union_frames writes\<close>

text \<open>The loops in memory change the vector of the result only, and leave in it what the
  loops on values compute.\<close>

lemma mem_inner_union_inner:
  "r < length (vectors m) \<Longrightarrow>
   mem_inner m r i b t =
     (fst (union_inner (drop i (vectors m ! r)) b t),
      m\<lparr>vectors := (vectors m)[r := take i (vectors m ! r) @
                                      snd (union_inner (drop i (vectors m ! r)) b t)]\<rparr>)"
proof (induction m r i b t rule: mem_inner.induct)
  case (1 m r i b t)
  let ?xs = "vectors m ! r"
  show ?case
  proof (cases "i < length ?xs")
    case False
    then show ?thesis
      by (subst mem_inner.simps) simp
  next
    case True
    then have drop: "drop i ?xs = ?xs ! i # drop (Suc i) ?xs"
      by (simp add: Cons_nth_drop_Suc)
    show ?thesis
    proof (cases "f32_ge (calculate_iou (?xs ! i) b) t")
      case hit: True
      then show ?thesis
        using True
        by (subst mem_inner.simps) (simp add: drop write_box_def upd_conv_take_nth_drop)
    next
      case miss: False
      have "mem_inner m r i b t = mem_inner m r (i + 1) b t"
        using True miss by (subst mem_inner.simps) simp
      also have "\<dots> =
          (fst (union_inner (drop (i + 1) ?xs) b t),
           m\<lparr>vectors := (vectors m)[r := take (i + 1) ?xs @
                                      snd (union_inner (drop (i + 1) ?xs) b t)]\<rparr>)"
        using "1.IH" [OF True refl miss "1.prems"] .
      finally show ?thesis
        using True miss
        by (simp add: drop take_Suc_conv_app_nth split: prod.splits)
    qed
  qed
qed

lemma mem_outer_union_outer:
  "r < length (vectors m) \<Longrightarrow> q < length (vectors m) \<Longrightarrow> q \<noteq> r \<Longrightarrow>
   n = length (vectors m ! q) \<Longrightarrow>
   mem_outer m q r k n t =
     m\<lparr>vectors := (vectors m)[r := union_outer (drop k (vectors m ! q)) (vectors m ! r) t]\<rparr>"
proof (induction m q r k n t rule: mem_outer.induct)
  case (1 m q r k n t)
  let ?ys = "vectors m ! q" and ?xs = "vectors m ! r"
  show ?case
  proof (cases "k < n")
    case False
    then show ?thesis
      using "1.prems" by (subst mem_outer.simps) simp
  next
    case True
    let ?b = "?ys ! k"
    obtain mg res where inner: "union_inner ?xs ?b t = (mg, res)"
      by (cases "union_inner ?xs ?b t")
    let ?m' = "m\<lparr>vectors := (vectors m)[r := res]\<rparr>"
    let ?m2 = "if \<not> mg then push_back ?m' r ?b else ?m'"
    have step: "mem_inner m r 0 ?b t = (mg, ?m')"
      using mem_inner_union_inner [OF "1.prems"(1), of 0 ?b t] inner by simp
    have m2: "?m2 = m\<lparr>vectors := (vectors m)[r := if \<not> mg then res @ [?b] else res]\<rparr>"
      using "1.prems"(1) by (simp add: push_back_def)
    have drop: "drop k ?ys = ?b # drop (Suc k) ?ys"
      using True "1.prems"(4) by (simp add: Cons_nth_drop_Suc)
    have "mem_outer m q r k n t = mem_outer ?m2 q r (k + 1) n t"
      using True step by (subst mem_outer.simps) simp
    also have "\<dots> = ?m2\<lparr>vectors := (vectors ?m2)[r :=
        union_outer (drop (k + 1) (vectors ?m2 ! q)) (vectors ?m2 ! r) t]\<rparr>"
    proof (rule "1.IH" [OF True refl step [symmetric]])
      show "r < length (vectors ?m2)" and "q < length (vectors ?m2)" and "q \<noteq> r"
        using "1.prems" by (simp_all add: m2)
      show "n = length (vectors ?m2 ! q)"
        using "1.prems" by (simp add: m2)
    qed
    also have "\<dots> = m\<lparr>vectors := (vectors m)[r :=
        union_outer (drop (Suc k) ?ys) (if \<not> mg then res @ [?b] else res) t]\<rparr>"
      using "1.prems" unfolding m2 by simp
    finally show ?thesis
      by (simp add: drop inner)
  qed
qed


text \<open>
  The call allocates one vector, for the result, and writes nothing else.
\<close>

lemma union_frames_mem_result:
  assumes "valid_frame m f1" "valid_frame m f2"
  shows "union_frames_mem m f1 f2 t =
    Some (\<lparr>frame_img = frame_img (frame_objs m ! f1), boxes_vec = length (vectors m)\<rparr>,
          m\<lparr>vectors := vectors m @
            [union_outer (vectors m ! boxes_vec (frame_objs m ! f2))
               (vectors m ! boxes_vec (frame_objs m ! f1)) t]\<rparr>)"
proof -
  let ?v1 = "boxes_vec (frame_objs m ! f1)" and ?v2 = "boxes_vec (frame_objs m ! f2)"
  let ?r = "length (vectors m)"
  let ?m1 = "m\<lparr>vectors := vectors m @ [vectors m ! ?v1]\<rparr>"
  have v: "f1 < length (frame_objs m)" "f2 < length (frame_objs m)" "?v1 < ?r" "?v2 < ?r"
    using assms by (simp_all add: valid_frame_def)
  have "mem_outer ?m1 ?v2 ?r 0 (length (vectors ?m1 ! ?v2)) t =
      ?m1\<lparr>vectors := (vectors ?m1)[?r :=
        union_outer (drop 0 (vectors ?m1 ! ?v2)) (vectors ?m1 ! ?r) t]\<rparr>"
    using v by (intro mem_outer_union_outer) simp_all
  also have "\<dots> = m\<lparr>vectors := vectors m @
      [union_outer (vectors m ! ?v2) (vectors m ! ?v1) t]\<rparr>"
    using v by (simp add: nth_append)
  finally show ?thesis
    using v by (simp add: union_frames_mem_def copy_frame_def Let_def)
qed

text \<open>The result in memory has the value that \<open>union_frames\<close> computes on the values
  of the two frames.\<close>

lemma union_frames_mem_refines:
  assumes "valid_frame m f1" "valid_frame m f2"
    and "union_frames_mem m f1 f2 t = Some (result, m')"
  shows "frame_of m' result =
    fst (union_frames (frame_of m (frame_objs m ! f1)) (frame_of m (frame_objs m ! f2)) t)"
  using assms(3) unfolding union_frames_mem_result [OF assms(1,2)]
  by (auto simp: frame_of_def union_frames_def)

text \<open>
  Claim C10. \<open>union_frames\<close> does not modify either input frame: after the call the
  frame objects, every vector that was in memory (those of \<open>f1\<close> and \<open>f2\<close> among
  them) and every pixel buffer are as before, so both frames have the image handles
  and the box sequences they had, also when \<open>f1\<close> and \<open>f2\<close> are the same object. The
  result is a newly constructed frame: its vector is the one vector the call allocates,
  at an address that was not in use, and its image handle is a copy of the handle of
  \<open>f1\<close>, so it points to the pixel buffer of \<open>f1\<close>, which is not copied.
\<close>

theorem union_frames_inputs_unchanged:
  assumes "valid_frame m f1" "valid_frame m f2"
  shows "\<exists>result m'. union_frames_mem m f1 f2 threshold = Some (result, m') \<and>
    frame_objs m' = frame_objs m \<and> buffers m' = buffers m \<and>
    take (length (vectors m)) (vectors m') = vectors m \<and>
    frame_of m' (frame_objs m' ! f1) = frame_of m (frame_objs m ! f1) \<and>
    frame_of m' (frame_objs m' ! f2) = frame_of m (frame_objs m ! f2) \<and>
    length (vectors m') = Suc (length (vectors m)) \<and>
    boxes_vec result = length (vectors m) \<and>
    frame_img result = frame_img (frame_objs m ! f1)"
proof -
  have "boxes_vec (frame_objs m ! f1) < length (vectors m)"
    and "boxes_vec (frame_objs m ! f2) < length (vectors m)"
    using assms by (simp_all add: valid_frame_def)
  then show ?thesis
    unfolding union_frames_mem_result [OF assms] by (simp add: frame_of_def nth_append)
qed

lemma test_mem_valid: "valid_frame test_mem 0" "valid_frame test_mem 1"
  by (simp_all add: valid_frame_def test_mem_def)

text \<open>\<^verbatim>\<open>test_union_frames\<close> on the frames in memory: the result has three boxes.\<close>

lemma test_union_frames_mem:
  "map_option (\<lambda>(result, m'). length (vectors m' ! boxes_vec result))
     (union_frames_mem test_mem 0 1 thr_0_1) = Some 3"
  by code_simp

theorem union_frames_inputs_unchanged_witness:
  "valid_frame test_mem 0 \<and> valid_frame test_mem 1 \<and>
   (\<exists>result m'. union_frames_mem test_mem 0 1 thr_0_1 = Some (result, m') \<and>
      frame_objs m' = frame_objs test_mem \<and> buffers m' = buffers test_mem \<and>
      take 2 (vectors m') = vectors test_mem \<and>
      length (vectors m') = 3 \<and> boxes_vec result = 2 \<and> data_ptr (frame_img result) = 0)"
proof -
  have len: "length (vectors test_mem) = 2"
    and handle: "data_ptr (frame_img (frame_objs test_mem ! 0)) = 0"
    by (simp_all add: test_mem_def)
  show ?thesis
    using union_frames_inputs_unchanged [OF test_mem_valid, of thr_0_1] test_mem_valid
    unfolding len by (auto simp: handle)
qed

section \<open>frame_clean returns a subsequence\<close>

lemma clean_collect_subseq:
  "subseq (clean_collect bs keep i acc) (acc @ drop i bs)"
proof (induction bs keep i acc rule: clean_collect.induct)
  case (1 bs keep i acc)
  show ?case
  proof (cases "i < length bs")
    case True
    let ?acc = "if keep ! i then acc @ [bs ! i] else acc"
    have "subseq (clean_collect bs keep (i + 1) ?acc) (?acc @ drop (i + 1) bs)"
      using "1.IH" [OF True] .
    moreover have "subseq (?acc @ drop (i + 1) bs) (acc @ drop i bs)"
      using True
      by (auto simp: Cons_nth_drop_Suc [symmetric] subseq_append' intro: list_emb_Cons)
    ultimately have "subseq (clean_collect bs keep (i + 1) ?acc) (acc @ drop i bs)"
      by (rule subseq_order.trans)
    then show ?thesis
      using True by (subst clean_collect.simps) simp
  next
    case False
    then show ?thesis
      by (subst clean_collect.simps) simp
  qed
qed

text \<open>
  Claim C4. The boxes left by \<open>frame_clean\<close> are a subsequence of the boxes it was given:
  the surviving boxes keep their relative order, and there are no more of them than
  before.
\<close>

theorem frame_clean_subseq:
  "subseq (boxes (frame_clean f threshold)) (boxes f) \<and>
   length (boxes (frame_clean f threshold)) \<le> length (boxes f)"
proof -
  have "subseq (boxes (frame_clean f threshold)) (boxes f)"
    using clean_collect_subseq [of "boxes f" _ 0 "[]"] by (simp add: frame_clean_def Let_def)
  then show ?thesis
    by (simp add: list_emb_length)
qed

section \<open>Rounding to binary32\<close>

lemma rne_lower: "0 < d \<Longrightarrow> n div d \<le> rne n d"
  by (simp add: rne_def Let_def)

lemma rne_upper: "0 < d \<Longrightarrow> rne n d \<le> n div d + 1"
  by (simp add: rne_def Let_def)

lemma rne_exact: "0 < d \<Longrightarrow> rne (k * d) d = k"
  by (simp add: rne_def Let_def)

lemma rne_ge:
  assumes "0 < d" "k * d \<le> n"
  shows "k \<le> rne n d"
proof -
  have "k * d div d \<le> n div d"
    using assms by (intro zdiv_mono1) simp_all
  then have "k \<le> n div d"
    using assms by simp
  then show ?thesis
    using rne_lower [OF assms(1), of n] by linarith
qed

lemma rne_le:
  assumes "0 < d" "n \<le> k * d"
  shows "rne n d \<le> k"
proof (cases "n = k * d")
  case True
  then show ?thesis
    using assms by (simp add: rne_exact)
next
  case False
  then have "n < k * d"
    using assms by simp
  moreover have "n div d * d \<le> n"
    using div_mult_mod_eq [of n d] pos_mod_sign [OF assms(1), of n] by linarith
  moreover have "k * d \<le> n div d * d" if "k \<le> n div d"
    using that assms(1) by (simp add: mult_right_mono)
  ultimately have "n div d < k"
    by fastforce
  then show ?thesis
    using rne_upper [OF assms(1), of n] by linarith
qed

lemma rne_mono:
  assumes "0 < d" "n \<le> n'"
  shows "rne n d \<le> rne n' d"
proof (cases "n div d = n' div d")
  case True
  have "n = d * (n div d) + n mod d" "n' = d * (n' div d) + n' mod d"
    by simp_all
  then have "n mod d \<le> n' mod d"
    using assms True by (metis add_le_cancel_left)
  then show ?thesis
    using True by (auto simp: rne_def Let_def)
next
  case False
  have "n div d \<le> n' div d"
    using assms by (intro zdiv_mono1) simp_all
  then have "n div d + 1 \<le> n' div d"
    using False by simp
  then show ?thesis
    using rne_upper [OF assms(1), of n] rne_lower [OF assms(1), of n'] by linarith
qed


text \<open>\<open>rne\<close> returns an integer nearest to the quotient.\<close>

lemma rne_nearest:
  assumes "0 < d"
  shows "\<bar>real_of_int (rne n d) - real_of_int n / real_of_int d\<bar> \<le> 1 / 2"
proof -
  let ?m = "n div d" and ?r = "n mod d"
  have r: "0 \<le> ?r" "?r < d"
    using assms by simp_all
  have "real_of_int n = real_of_int ?m * real_of_int d + real_of_int ?r"
    by (simp flip: of_int_mult of_int_add)
  then have quot: "real_of_int n / real_of_int d = real_of_int ?m + real_of_int ?r / real_of_int d"
    using assms by (simp add: field_simps)
  consider "2 * ?r < d" | "d < 2 * ?r" | "2 * ?r = d"
    by linarith
  then show ?thesis
  proof cases
    case 1
    then have "rne n d = ?m"
      by (simp add: rne_def Let_def)
    moreover have "real_of_int ?r / real_of_int d \<le> 1 / 2"
      using 1 assms r by (simp add: field_simps)
    ultimately show ?thesis
      using r assms by (simp add: quot)
  next
    case 2
    then have "rne n d = ?m + 1"
      by (simp add: rne_def Let_def)
    moreover have "1 / 2 \<le> real_of_int ?r / real_of_int d"
      using 2 assms r by (simp add: field_simps)
    moreover have "real_of_int ?r / real_of_int d \<le> 1"
      using assms by (simp add: order.strict_implies_order)
    ultimately show ?thesis
      by (simp add: quot)
  next
    case 3
    then have half: "real_of_int ?r / real_of_int d = 1 / 2"
      using assms by (simp add: field_simps)
    have nd: "real_of_int n / real_of_int d = real_of_int ?m + 1 / 2"
      by (simp only: quot half)
    have "rne n d = ?m \<or> rne n d = ?m + 1"
      by (auto simp: rne_def Let_def)
    then show ?thesis
      unfolding nd by auto
  qed
qed

lemma bitlen_mono: "a \<le> b \<Longrightarrow> bitlen a \<le> bitlen b"
  by (simp add: bitlen_def floorlog_mono nat_mono)

lemma less_power_bitlen: "0 \<le> a \<Longrightarrow> a < 2 ^ nat (bitlen a)"
  using bitlen_bounds [of a] by (cases "a = 0") simp_all

lemma float_of_int_nonneg:
  "0 \<le> k \<Longrightarrow> float_of_int k = rne k (2 ^ nat (bitlen k - 24)) * 2 ^ nat (bitlen k - 24)"
  by (cases "k = 0") (simp_all add: float_of_int_def Let_def rne_def)

lemma float_of_int_mono:
  assumes "0 \<le> a" "a \<le> b"
  shows "float_of_int a \<le> float_of_int b"
proof -
  let ?sa = "nat (bitlen a - 24)" and ?sb = "nat (bitlen b - 24)"
  have b: "0 \<le> b"
    using assms by simp
  have fa: "float_of_int a = rne a (2 ^ ?sa) * 2 ^ ?sa"
    using assms(1) by (rule float_of_int_nonneg)
  have fb: "float_of_int b = rne b (2 ^ ?sb) * 2 ^ ?sb"
    using b by (rule float_of_int_nonneg)
  have le: "?sa \<le> ?sb"
    using bitlen_mono [OF assms(2)] by simp
  show ?thesis
  proof (cases "?sa = ?sb")
    case True
    have "rne a (2 ^ ?sb) \<le> rne b (2 ^ ?sb)"
      using assms(2) by (intro rne_mono) simp_all
    then show ?thesis
      unfolding fa fb True by (simp add: mult_right_mono)
  next
    case False
    then have less: "bitlen a < bitlen b" and big: "24 < bitlen b"
      using le by linarith+
    let ?la = "nat (bitlen a)" and ?lb = "nat (bitlen b - 1)"
    have b_pos: "0 < b"
      using big bitlen_eq_zero_iff [of b] by (cases "0 < b") simp_all
    have "a \<le> 2 ^ (?la - ?sa) * 2 ^ ?sa"
      using less_power_bitlen [OF assms(1)] by (simp flip: power_add)
    then have "rne a (2 ^ ?sa) \<le> 2 ^ (?la - ?sa)"
      by (intro rne_le) simp_all
    then have "rne a (2 ^ ?sa) * 2 ^ ?sa \<le> 2 ^ (?la - ?sa) * 2 ^ ?sa"
      by (simp add: mult_right_mono)
    then have upper: "float_of_int a \<le> 2 ^ ?la"
      unfolding fa by (simp flip: power_add)
    have "2 ^ (?lb - ?sb) * 2 ^ ?sb \<le> b"
      using bitlen_bounds [OF b_pos] big by (simp flip: power_add)
    then have "2 ^ (?lb - ?sb) \<le> rne b (2 ^ ?sb)"
      by (intro rne_ge) simp_all
    then have "2 ^ (?lb - ?sb) * 2 ^ ?sb \<le> rne b (2 ^ ?sb) * 2 ^ ?sb"
      by (simp add: mult_right_mono)
    then have lower: "2 ^ ?lb \<le> float_of_int b"
      using big unfolding fb by (simp flip: power_add)
    have "?la \<le> ?lb"
      using less by simp
    then have "(2 :: int) ^ ?la \<le> 2 ^ ?lb"
      by (rule power_increasing) simp
    then show ?thesis
      using upper lower by linarith
  qed
qed

lemma float_of_int_0: "float_of_int 0 = 0"
  by (simp add: float_of_int_def)

lemma float_of_int_1: "float_of_int 1 = 1"
  by (simp add: float_of_int_def rne_def compute_bitlen)

lemma float_of_int_pos: "0 < k \<Longrightarrow> 0 < float_of_int k"
  using float_of_int_mono [of 1 k] by (simp add: float_of_int_1)

lemma float_of_int_minus: "float_of_int (- k) = - float_of_int k"
  by (simp add: float_of_int_def Let_def)

lemma float_of_int_eq_0_iff: "float_of_int k = 0 \<longleftrightarrow> k = 0"
proof (cases k "0 :: int" rule: linorder_cases)
  case less
  then show ?thesis
    using float_of_int_pos [of "- k"] by (simp add: float_of_int_minus)
next
  case equal
  then show ?thesis
    by (simp add: float_of_int_0)
next
  case greater
  then show ?thesis
    using float_of_int_pos [of k] by simp
qed

lemma quot_exponent_self: "quot_exponent c c = 0"
  by (simp add: quot_exponent_def)

lemma quot_exponent_le_0:
  assumes "a \<le> b"
  shows "quot_exponent a b \<le> 0"
  using bitlen_mono [OF assms] by (simp add: quot_exponent_def Let_def)

lemma round_quot_self: "0 < c \<Longrightarrow> round_quot c c = 1"
  using rne_exact [of c "2 ^ 23"] by (simp add: round_quot_def quot_exponent_self mult.commute)

lemma round_quot_unit:
  assumes "0 < a" "a \<le> b"
  shows "0 \<le> round_quot a b \<and> round_quot a b \<le> 1"
proof -
  let ?e = "quot_exponent a b"
  let ?k = "(2 :: int) ^ nat (23 - ?e)"
  have e: "?e \<le> 23"
    using quot_exponent_le_0 [OF assms(2)] by simp
  have b: "0 < b"
    using assms by simp
  have rq: "round_quot a b = real_of_int (rne (a * ?k) b) / real_of_int ?k"
    using e by (simp add: round_quot_def Let_def)
  have "0 * b \<le> a * ?k"
    using assms(1) by simp
  then have low: "0 \<le> rne (a * ?k) b"
    using b by (rule rne_ge [rotated])
  have "a * ?k \<le> ?k * b"
    using assms(2) by (simp add: mult.commute mult_left_mono)
  then have high: "rne (a * ?k) b \<le> ?k"
    using b by (rule rne_le [rotated])
  have "real_of_int (rne (a * ?k) b) \<le> real_of_int ?k"
    using high by (simp only: of_int_le_iff)
  then have "real_of_int (rne (a * ?k) b) / real_of_int ?k \<le> 1"
    by (simp add: divide_le_eq_1)
  moreover have "0 \<le> real_of_int (rne (a * ?k) b) / real_of_int ?k"
    using low by simp
  ultimately show ?thesis
    unfolding rq by simp
qed

lemma float_div_self: "b \<noteq> 0 \<Longrightarrow> float_div b b = Finite 1"
  by (cases "0 < b") (simp_all add: float_div_def round_quot_self)

lemma float_div_unit:
  assumes "0 \<le> a" "a \<le> b" "0 < b"
  shows "\<exists>q. float_div a b = Finite q \<and> 0 \<le> q \<and> q \<le> 1"
proof (cases "a = 0")
  case True
  then show ?thesis
    using assms by (simp add: float_div_def)
next
  case False
  then have "0 < a"
    using assms by simp
  then show ?thesis
    using round_quot_unit [of a b] assms by (simp add: float_div_def)
qed

subsection \<open>The conversion and the division round to a nearest binary32 number\<close>

text \<open>
  The results of \<open>float_of_int\<close> and \<open>round_quot\<close> have a significand of at most 24
  bits at the exponent of their argument, and differ from the exact value by at most
  half a unit in the last place.
\<close>

lemma two_powr_nat: "0 \<le> e \<Longrightarrow> (2 :: real) ^ nat e = 2 powr real_of_int e"
  by (simp add: powr_real_of_int)

lemma bitlen_bounds_powr:
  assumes "0 < a"
  shows "2 powr real_of_int (bitlen a - 1) \<le> real_of_int a"
    and "real_of_int a < 2 powr real_of_int (bitlen a)"
proof -
  have "bitlen a \<noteq> 0"
    using assms by (simp add: bitlen_eq_zero_iff)
  then have pos: "0 \<le> bitlen a - 1" "0 \<le> bitlen a"
    using bitlen_nonneg [of a] by linarith+
  have "(2 :: int) ^ nat (bitlen a - 1) \<le> a" and "a < 2 ^ nat (bitlen a)"
    using bitlen_bounds [OF assms] by simp_all
  then have "real_of_int (2 ^ nat (bitlen a - 1)) \<le> real_of_int a"
    and "real_of_int a < real_of_int (2 ^ nat (bitlen a))"
    by (simp_all only: of_int_le_iff of_int_less_iff)
  then have low: "(2 :: real) ^ nat (bitlen a - 1) \<le> real_of_int a"
    and high: "real_of_int a < (2 :: real) ^ nat (bitlen a)"
    by simp_all
  show "2 powr real_of_int (bitlen a - 1) \<le> real_of_int a"
    using low by (simp only: two_powr_nat [OF pos(1)])
  show "real_of_int a < 2 powr real_of_int (bitlen a)"
    using high by (simp only: two_powr_nat [OF pos(2)])
qed

lemma quot_exponent_test:
  assumes "0 < a" "0 < b"
  shows "(if 0 \<le> e then b * 2 ^ nat e \<le> a else b \<le> a * 2 ^ nat (- e)) \<longleftrightarrow>
    2 powr real_of_int e \<le> real_of_int a / real_of_int b"
proof (cases "0 \<le> e")
  case True
  have "b * 2 ^ nat e \<le> a \<longleftrightarrow> real_of_int (b * 2 ^ nat e) \<le> real_of_int a"
    by (simp only: of_int_le_iff)
  also have "\<dots> \<longleftrightarrow> real_of_int b * 2 powr real_of_int e \<le> real_of_int a"
    using True by (simp add: powr_real_of_int)
  also have "\<dots> \<longleftrightarrow> 2 powr real_of_int e \<le> real_of_int a / real_of_int b"
    using assms by (simp add: pos_le_divide_eq mult.commute)
  finally show ?thesis
    using True by simp
next
  case False
  have "b \<le> a * 2 ^ nat (- e) \<longleftrightarrow> real_of_int b \<le> real_of_int (a * 2 ^ nat (- e))"
    by (simp only: of_int_le_iff)
  also have "\<dots> \<longleftrightarrow> real_of_int b \<le> real_of_int a * 2 powr real_of_int (- e)"
    using False two_powr_nat [of "- e"] by simp
  also have "\<dots> \<longleftrightarrow> real_of_int b * 2 powr real_of_int e \<le> real_of_int a"
    by (simp add: powr_minus field_simps)
  also have "\<dots> \<longleftrightarrow> 2 powr real_of_int e \<le> real_of_int a / real_of_int b"
    using assms by (simp add: pos_le_divide_eq mult.commute)
  finally show ?thesis
    using False by simp
qed

lemma quot_exponent_bounds:
  assumes "0 < a" "0 < b"
  shows "2 powr real_of_int (quot_exponent a b) \<le> real_of_int a / real_of_int b"
    and "real_of_int a / real_of_int b < 2 powr (real_of_int (quot_exponent a b) + 1)"
proof -
  let ?e = "bitlen a - bitlen b"
  let ?q = "real_of_int a / real_of_int b"
  note a = bitlen_bounds_powr [OF assms(1)] and b = bitlen_bounds_powr [OF assms(2)]
  have rb: "0 < real_of_int b" and ra: "0 < real_of_int a"
    using assms by simp_all
  have "?q < 2 powr real_of_int (bitlen a) / 2 powr real_of_int (bitlen b - 1)"
    using a(2) b(1) ra rb by (intro frac_less) simp_all
  then have upper: "?q < 2 powr (real_of_int ?e + 1)"
    by (simp add: powr_diff [symmetric] algebra_simps)
  have "2 powr real_of_int (bitlen a - 1) / 2 powr real_of_int (bitlen b) < ?q"
    using a(1) b(2) rb by (intro frac_less2) simp_all
  then have lower: "2 powr (real_of_int ?e - 1) < ?q"
    by (simp add: powr_diff [symmetric] algebra_simps)
  have test: "quot_exponent a b = (if 2 powr real_of_int ?e \<le> ?q then ?e else ?e - 1)"
    using quot_exponent_test [OF assms, of ?e] by (simp add: quot_exponent_def Let_def)
  show "2 powr real_of_int (quot_exponent a b) \<le> ?q"
    using lower by (simp add: test)
  show "?q < 2 powr (real_of_int (quot_exponent a b) + 1)"
    using upper by (auto simp: test not_le)
qed


lemma abs_diff_divide:
  fixes x y k :: real
  assumes "0 < k"
  shows "\<bar>x / k - y / k\<bar> = \<bar>x - y\<bar> / k"
proof -
  have "x / k - y / k = (x - y) / k"
    by (simp add: diff_divide_distrib)
  then show ?thesis
    using assms by (simp add: abs_divide)
qed

lemma half_scaled:
  fixes m n d :: real
  assumes "0 < d" "\<bar>m - n / d\<bar> \<le> 1 / 2"
  shows "2 * \<bar>m * d - n\<bar> \<le> d"
proof -
  have "m * d - n = (m - n / d) * d"
    using assms(1) by (simp add: field_simps)
  then have "\<bar>m * d - n\<bar> = \<bar>m - n / d\<bar> * d"
    using assms(1) by (simp add: abs_mult)
  moreover have "\<bar>m - n / d\<bar> * d \<le> 1 / 2 * d"
    using assms by (intro mult_right_mono) simp_all
  ultimately show ?thesis
    by simp
qed

lemma round_quot_scaled:
  assumes "0 < a" "0 < b"
  defines "e \<equiv> quot_exponent a b"
  shows "\<exists>n d. 0 < d \<and>
    real_of_int n / real_of_int d = real_of_int a / real_of_int b * 2 powr real_of_int (23 - e) \<and>
    round_quot a b = real_of_int (rne n d) / 2 powr real_of_int (23 - e)"
proof (cases "e \<le> 23")
  case True
  let ?n = "a * 2 ^ nat (23 - e)"
  have k: "(2 :: real) ^ nat (23 - e) = 2 powr real_of_int (23 - e)"
    using True by (intro two_powr_nat) simp
  have "real_of_int ?n / real_of_int b =
      real_of_int a / real_of_int b * 2 powr real_of_int (23 - e)"
    by (simp add: k)
  moreover have "round_quot a b = real_of_int (rne ?n b) / 2 powr real_of_int (23 - e)"
    using True by (simp add: round_quot_def Let_def e_def k [unfolded e_def])
  ultimately show ?thesis
    using assms(2) by blast
next
  case False
  define kk :: real where "kk = 2 ^ nat (e - 23)"
  let ?d = "b * 2 ^ nat (e - 23)"
  have kk: "0 < kk"
    by (simp add: kk_def)
  have "kk = 2 powr real_of_int (e - 23)"
    unfolding kk_def using False by (intro two_powr_nat) simp
  moreover have "real_of_int (23 - e) = - real_of_int (e - 23)"
    by simp
  ultimately have inv: "2 powr real_of_int (23 - e) = inverse kk"
    by (simp only: powr_minus)
  have d: "real_of_int ?d = real_of_int b * kk"
    by (simp add: kk_def)
  have "real_of_int a / real_of_int ?d = real_of_int a / real_of_int b * inverse kk"
    unfolding d using kk by (simp add: field_simps)
  moreover have "round_quot a b = real_of_int (rne a ?d) * kk"
    using False by (simp add: round_quot_def Let_def e_def kk_def)
  then have "round_quot a b = real_of_int (rne a ?d) / inverse kk"
    using kk by (simp add: field_simps)
  moreover have "0 < ?d"
    using assms(2) by simp
  ultimately show ?thesis
    unfolding inv by blast
qed

lemma round_quot_nearest:
  assumes "0 < a" "0 < b"
  shows "\<bar>round_quot a b - real_of_int a / real_of_int b\<bar>
    \<le> 2 powr real_of_int (quot_exponent a b - 24)"
proof -
  let ?e = "quot_exponent a b"
  define k where "k = 2 powr real_of_int (23 - ?e)"
  obtain n d where d: "0 < d"
    and quot: "real_of_int n / real_of_int d = real_of_int a / real_of_int b * k"
    and rq: "round_quot a b = real_of_int (rne n d) / k"
    using round_quot_scaled [OF assms] unfolding k_def by blast
  have k: "0 < k"
    by (simp add: k_def)
  have aq: "real_of_int a / real_of_int b = real_of_int n / real_of_int d / k"
    using k by (simp add: quot)
  have "\<bar>round_quot a b - real_of_int a / real_of_int b\<bar> =
      \<bar>real_of_int (rne n d) - real_of_int n / real_of_int d\<bar> / k"
    unfolding rq aq using k by (rule abs_diff_divide)
  also have "\<dots> \<le> (1 / 2) / k"
    using rne_nearest [OF d, of n] k by (intro divide_right_mono) simp_all
  also have "\<dots> = 2 powr real_of_int (?e - 24)"
  proof -
    have "real_of_int (?e - 24) = - 1 - real_of_int (23 - ?e)"
      by simp
    then have "2 powr real_of_int (?e - 24) = 2 powr (- 1) / k"
      unfolding k_def by (simp only: powr_diff)
    then show ?thesis
      by (simp add: powr_minus)
  qed
  finally show ?thesis .
qed

lemma round_quot_significand:
  assumes "0 < a" "0 < b"
  shows "\<exists>m. round_quot a b = real_of_int m * 2 powr real_of_int (quot_exponent a b - 23) \<and>
    2 ^ 23 \<le> m \<and> m \<le> 2 ^ 24"
proof -
  let ?e = "quot_exponent a b"
  let ?q = "real_of_int a / real_of_int b"
  define k where "k = 2 powr real_of_int (23 - ?e)"
  obtain n d where d: "0 < d"
    and quot: "real_of_int n / real_of_int d = ?q * k"
    and rq: "round_quot a b = real_of_int (rne n d) / k"
    using round_quot_scaled [OF assms] unfolding k_def by blast
  note e = quot_exponent_bounds [OF assms]
  have k: "0 < k"
    by (simp add: k_def)
  have "2 powr real_of_int ?e * k \<le> ?q * k"
    using e(1) k by (intro mult_right_mono) simp_all
  moreover have "2 powr real_of_int ?e * k = 2 powr 23"
    by (simp add: k_def powr_add [symmetric])
  ultimately have "2 ^ 23 \<le> real_of_int n / real_of_int d"
    by (simp add: quot)
  then have "real_of_int (2 ^ 23 * d) \<le> real_of_int n"
    using d by (simp add: pos_le_divide_eq)
  then have "2 ^ 23 * d \<le> n"
    by (simp only: of_int_le_iff)
  then have low: "2 ^ 23 \<le> rne n d"
    using d by (intro rne_ge) simp_all
  have "?q * k \<le> 2 powr (real_of_int ?e + 1) * k"
    using e(2) k by (intro mult_right_mono) simp_all
  moreover have "2 powr (real_of_int ?e + 1) * k = 2 powr 24"
    by (simp add: k_def powr_add [symmetric])
  ultimately have "real_of_int n / real_of_int d \<le> 2 ^ 24"
    by (simp add: quot)
  then have "real_of_int n \<le> real_of_int (2 ^ 24 * d)"
    using d by (simp add: pos_divide_le_eq)
  then have "n \<le> 2 ^ 24 * d"
    by (simp only: of_int_le_iff)
  then have high: "rne n d \<le> 2 ^ 24"
    using d by (intro rne_le) simp_all
  have "real_of_int (?e - 23) = - real_of_int (23 - ?e)"
    by simp
  then have "2 powr real_of_int (?e - 23) = inverse k"
    unfolding k_def by (simp only: powr_minus)
  then have "round_quot a b = real_of_int (rne n d) * 2 powr real_of_int (?e - 23)"
    by (simp only: rq divide_inverse)
  then show ?thesis
    using low high by blast
qed

lemma float_of_int_nearest:
  "2 * \<bar>float_of_int k - k\<bar> \<le> 2 ^ nat (bitlen \<bar>k\<bar> - 24)"
proof -
  define d :: int where "d = 2 ^ nat (bitlen \<bar>k\<bar> - 24)"
  define m where "m = rne \<bar>k\<bar> d"
  have d: "0 < d"
    by (simp add: d_def)
  have "\<bar>real_of_int m - real_of_int \<bar>k\<bar> / real_of_int d\<bar> \<le> 1 / 2"
    unfolding m_def using d by (rule rne_nearest)
  then have "2 * \<bar>real_of_int m * real_of_int d - real_of_int \<bar>k\<bar>\<bar> \<le> real_of_int d"
    using d by (intro half_scaled) simp_all
  then have "real_of_int (2 * \<bar>m * d - \<bar>k\<bar>\<bar>) \<le> real_of_int d"
    by simp
  then have magnitude: "2 * \<bar>m * d - \<bar>k\<bar>\<bar> \<le> d"
    by (simp only: of_int_le_iff)
  have "float_of_int k = sgn k * (m * d)"
    by (simp add: float_of_int_def Let_def m_def d_def)
  moreover have "k = 0 \<Longrightarrow> m = 0"
    by (simp add: m_def rne_def d_def)
  ultimately have "\<bar>float_of_int k - k\<bar> = \<bar>m * d - \<bar>k\<bar>\<bar>"
    by (cases k "0 :: int" rule: linorder_cases) simp_all
  then show ?thesis
    using magnitude by (simp add: d_def)
qed

lemma float_of_int_significand:
  "\<exists>m. \<bar>float_of_int k\<bar> = m * 2 ^ nat (bitlen \<bar>k\<bar> - 24) \<and> 0 \<le> m \<and> m \<le> 2 ^ 24"
proof -
  define d :: int where "d = 2 ^ nat (bitlen \<bar>k\<bar> - 24)"
  define m where "m = rne \<bar>k\<bar> d"
  have d: "0 < d"
    by (simp add: d_def)
  have "0 * d \<le> \<bar>k\<bar>"
    by simp
  then have low: "0 \<le> m"
    unfolding m_def using d by (intro rne_ge)
  have "\<bar>k\<bar> < 2 ^ nat (bitlen \<bar>k\<bar>)"
    by (intro less_power_bitlen) simp
  also have "(2 :: int) ^ nat (bitlen \<bar>k\<bar>) \<le> 2 ^ (24 + nat (bitlen \<bar>k\<bar> - 24))"
    by (intro power_increasing) simp_all
  finally have "\<bar>k\<bar> \<le> 2 ^ 24 * d"
    by (simp add: power_add d_def)
  then have high: "m \<le> 2 ^ 24"
    unfolding m_def using d by (intro rne_le)
  have "float_of_int k = sgn k * (m * d)"
    by (simp add: float_of_int_def Let_def m_def d_def)
  moreover have "k = 0 \<Longrightarrow> m = 0"
    by (simp add: m_def rne_def d_def)
  ultimately have "\<bar>float_of_int k\<bar> = m * d"
    using low d by (cases k "0 :: int" rule: linorder_cases) (simp_all add: abs_mult)
  then show ?thesis
    using low high unfolding d_def by blast
qed

section \<open>calculate_iou: range and self-overlap\<close>

lemma sint_word_of_int:
  "- (2 ^ 31) \<le> k \<Longrightarrow> k < 2 ^ 31 \<Longrightarrow> sint (word_of_int k :: int32) = k"
  by (simp add: signed_of_int signed_take_bit_int_eq_self)

lemma area_word: "(x2 b - x1 b) * (y2 b - y1 b) = word_of_int (int_area b)"
  by (simp add: int_area_def)

lemma intersection_word:
  "(std_min (x2 b1) (x2 b2) - std_max (x1 b1) (x1 b2)) *
   (std_min (y2 b1) (y2 b2) - std_max (y1 b1) (y1 b2)) = word_of_int (int_intersection b1 b2)"
  by (simp add: int_intersection_def)

lemma calculate_iou_overlap:
  "\<not> window_empty b1 b2 \<Longrightarrow>
   calculate_iou b1 b2 =
     float_div (float_of_int (sint (word_of_int (int_intersection b1 b2) :: int32)))
       (float_of_int (sint (word_of_int (int_union b1 b2) :: int32)))"
  by (simp add: calculate_iou_def window_empty_def Let_def area_word intersection_word
      int_union_def)

lemma intersection_bounds:
  assumes "\<not> window_empty b1 b2"
  shows "0 \<le> int_intersection b1 b2"
    and "int_intersection b1 b2 \<le> int_area b1"
    and "int_intersection b1 b2 \<le> int_area b2"
proof -
  let ?w = "sint (std_min (x2 b1) (x2 b2)) - sint (std_max (x1 b1) (x1 b2))"
  let ?h = "sint (std_min (y2 b1) (y2 b2)) - sint (std_max (y1 b1) (y1 b2))"
  have w: "0 \<le> ?w" and h: "0 \<le> ?h"
    using assms by (simp_all add: window_empty_def word_sless_alt)
  have w1: "?w \<le> sint (x2 b1) - sint (x1 b1)"
    using std_min_le1 [of "x2 b1" "x2 b2"] std_max_ge1 [of "x1 b1" "x1 b2"] by linarith
  have w2: "?w \<le> sint (x2 b2) - sint (x1 b2)"
    using std_min_le2 [of "x2 b1" "x2 b2"] std_max_ge2 [of "x1 b2" "x1 b1"] by linarith
  have h1: "?h \<le> sint (y2 b1) - sint (y1 b1)"
    using std_min_le1 [of "y2 b1" "y2 b2"] std_max_ge1 [of "y1 b1" "y1 b2"] by linarith
  have h2: "?h \<le> sint (y2 b2) - sint (y1 b2)"
    using std_min_le2 [of "y2 b1" "y2 b2"] std_max_ge2 [of "y1 b2" "y1 b1"] by linarith
  show "0 \<le> int_intersection b1 b2"
    using w h by (simp add: int_intersection_def)
  show "int_intersection b1 b2 \<le> int_area b1"
    unfolding int_intersection_def int_area_def using w1 h1 w h by (intro mult_mono) simp_all
  show "int_intersection b1 b2 \<le> int_area b2"
    unfolding int_intersection_def int_area_def using w2 h2 w h by (intro mult_mono) simp_all
qed

lemma calculate_iou_point_box: "calculate_iou point_box point_box = NaN"
  by code_simp

text \<open>
  With a union area beyond the int range the wrapped denominator can be negative, and
  so can the result: here the first area, \<open>46341 * 46341\<close>, wraps to a negative int.
\<close>

lemma calculate_iou_wrapped_negative:
  "calculate_iou (make_box 0 0 46341 46341 0) (make_box 0 0 46341 1 0)
     = Finite (- (11863321 / 2 ^ 39))"
  by code_simp

text \<open>
  With a non-empty window and a union area of zero, that is two boxes without area, the
  division is \<open>0.0f / 0\<close> and the result is NaN.
\<close>

lemma calculate_iou_zero_union:
  assumes "\<not> window_empty b1 b2" "int_union b1 b2 = 0"
  shows "calculate_iou b1 b2 = NaN"
proof -
  note bounds = intersection_bounds [OF assms(1)]
  have "int_intersection b1 b2 = 0"
    using bounds assms(2) by (simp add: int_union_def)
  then show ?thesis
    using assms by (simp add: calculate_iou_overlap float_of_int_0 float_div_def)
qed

text \<open>
  Claim C2, as the code has it. \<open>calculate_iou\<close> returns a real number in \<open>[0, 1]\<close>
  for every pair of boxes whose intersection window is empty, or whose union area
  \<open>b1_area + b2_area - intersection\<close> is not zero and fits an int (is below \<open>2 ^ 31\<close>).
  Inverted boxes have an empty window.
\<close>

theorem calculate_iou_range:
  assumes "window_empty b1 b2 \<or> int_union b1 b2 \<noteq> 0 \<and> int_union b1 b2 < 2 ^ 31"
  shows "\<exists>q. calculate_iou b1 b2 = Finite q \<and> 0 \<le> q \<and> q \<le> 1"
proof (cases "window_empty b1 b2")
  case True
  then show ?thesis
    by (simp add: calculate_iou_def window_empty_def Let_def)
next
  case False
  then have nonzero: "int_union b1 b2 \<noteq> 0" and fits: "int_union b1 b2 < 2 ^ 31"
    using assms by simp_all
  note bounds = intersection_bounds [OF False]
  have inter_union: "int_intersection b1 b2 \<le> int_union b1 b2"
    using bounds by (simp add: int_union_def)
  have i: "sint (word_of_int (int_intersection b1 b2) :: int32) = int_intersection b1 b2"
    using bounds(1) inter_union fits by (intro sint_word_of_int) simp_all
  have u: "sint (word_of_int (int_union b1 b2) :: int32) = int_union b1 b2"
    using bounds(1) inter_union fits by (intro sint_word_of_int) simp_all
  have pos: "0 < int_union b1 b2"
    using bounds(1) inter_union nonzero by simp
  have "\<exists>q. float_div (float_of_int (int_intersection b1 b2))
      (float_of_int (int_union b1 b2)) = Finite q \<and> 0 \<le> q \<and> q \<le> 1"
  proof (rule float_div_unit)
    show "0 \<le> float_of_int (int_intersection b1 b2)"
      using float_of_int_mono [of 0 "int_intersection b1 b2"] bounds(1)
      by (simp add: float_of_int_0)
    show "float_of_int (int_intersection b1 b2) \<le> float_of_int (int_union b1 b2)"
      using bounds(1) inter_union by (rule float_of_int_mono)
    show "0 < float_of_int (int_union b1 b2)"
      using pos by (rule float_of_int_pos)
  qed
  then show ?thesis
    using False by (simp add: calculate_iou_overlap i u)
qed

theorem calculate_iou_range_witness:
  "int_union (make_box 0 0 2 2 0) (make_box 1 1 3 3 0) = 7 \<and>
   (\<exists>q. calculate_iou (make_box 0 0 2 2 0) (make_box 1 1 3 3 0) = Finite q \<and> 0 \<le> q \<and> q \<le> 1)"
proof -
  have area: "int_union (make_box 0 0 2 2 0) (make_box 1 1 3 3 0) = 7"
    by code_simp
  show ?thesis
    using calculate_iou_range [of "make_box 0 0 2 2 0" "make_box 1 1 3 3 0"] area
    by simp
qed

text \<open>
  Claim C2 as stated fails: for two copies of the box \<open>(0, 0, 0, 0)\<close> the window is not
  empty, the intersection and both areas are \<open>0\<close>, and the result of \<open>0.0f / 0\<close> is NaN,
  not a number in \<open>[0, 1]\<close>.
\<close>

theorem calculate_iou_range_counterexample:
  "calculate_iou point_box point_box = NaN \<and>
   \<not> (\<exists>q. calculate_iou point_box point_box = Finite q \<and> 0 \<le> q \<and> q \<le> 1)"
  by (simp add: calculate_iou_point_box)

lemma calculate_iou_wide_box: "calculate_iou wide_box wide_box = NaN"
  by code_simp

text \<open>
  The value of \<open>calculate_iou a a\<close> for a box with \<open>x1 < x2\<close> and \<open>y1 < y2\<close>: when the
  area is a multiple of \<open>2 ^ 32\<close> the 32-bit product is \<open>0\<close> and the division is
  \<open>0.0f / 0\<close>.
\<close>

lemma calculate_iou_self_value:
  assumes "x1 a <s x2 a" "y1 a <s y2 a"
  shows "calculate_iou a a = (if 2 ^ 32 dvd int_area a then NaN else Finite 1)"
proof -
  let ?area = "(x2 a - x1 a) * (y2 a - y1 a)"
  have same: "std_max w w = w" "std_min w w = w" for w
    by (simp_all add: std_max_def std_min_def)
  have guard: "\<not> (x2 a <s x1 a \<or> y2 a <s y1 a)"
    using assms by (auto dest: signed.less_asym)
  have iou: "calculate_iou a a = float_div (float_of_int (sint ?area)) (float_of_int (sint ?area))"
    using guard by (simp add: calculate_iou_def same Let_def)
  have zero: "?area = 0 \<longleftrightarrow> 2 ^ 32 dvd int_area a"
    using word_of_int_eq_0_iff [where ?'a = 32, of "int_area a"] by (simp add: area_word)
  show ?thesis
  proof (cases "?area = 0")
    case True
    then show ?thesis
      using zero by (simp add: iou float_of_int_0 float_div_def)
  next
    case False
    then have "float_of_int (sint ?area) \<noteq> 0"
      by (simp add: float_of_int_eq_0_iff signed_eq_0_iff)
    then show ?thesis
      using False zero by (simp add: iou float_div_self)
  qed
qed

text \<open>
  Claim C7, as the code has it. For a box with \<open>x1 < x2\<close> and \<open>y1 < y2\<close> whose area
  \<open>(x2 - x1) * (y2 - y1)\<close> is not a multiple of \<open>2 ^ 32\<close>, \<open>calculate_iou a a\<close> is
  exactly \<open>1.0\<close>. An area that fits an int is positive and below \<open>2 ^ 31\<close>, hence no
  such multiple.
\<close>

theorem calculate_iou_self:
  assumes "x1 a <s x2 a" "y1 a <s y2 a" "\<not> 2 ^ 32 dvd int_area a"
  shows "calculate_iou a a = Finite 1"
  using calculate_iou_self_value [OF assms(1,2)] assms(3) by simp

theorem calculate_iou_self_witness:
  "x1 (make_box 0 0 2 2 0) <s x2 (make_box 0 0 2 2 0) \<and>
   y1 (make_box 0 0 2 2 0) <s y2 (make_box 0 0 2 2 0) \<and>
   int_area (make_box 0 0 2 2 0) = 4 \<and>
   calculate_iou (make_box 0 0 2 2 0) (make_box 0 0 2 2 0) = Finite 1"
proof -
  have x: "x1 (make_box 0 0 2 2 0) <s x2 (make_box 0 0 2 2 0)"
    and y: "y1 (make_box 0 0 2 2 0) <s y2 (make_box 0 0 2 2 0)"
    by (simp_all add: make_box_def word_sless_alt)
  have area: "int_area (make_box 0 0 2 2 0) = 4"
    by (simp add: int_area_def make_box_def)
  then have "\<not> 2 ^ 32 dvd int_area (make_box 0 0 2 2 0)"
    by simp
  then show ?thesis
    using calculate_iou_self [OF x y] x y area by simp
qed

text \<open>
  Claim C7 as stated fails: the box \<open>(0, 0, 65536, 65536)\<close> has \<open>x1 < x2\<close> and
  \<open>y1 < y2\<close> and the positive area \<open>2 ^ 32\<close>, but the int product
  \<open>65536 * 65536\<close> is \<open>0\<close> and \<open>calculate_iou\<close> returns NaN for the box and itself.
\<close>

theorem calculate_iou_self_counterexample:
  "x1 wide_box <s x2 wide_box \<and> y1 wide_box <s y2 wide_box \<and>
   int_area wide_box = 2 ^ 32 \<and>
   calculate_iou wide_box wide_box = NaN \<and>
   calculate_iou wide_box wide_box \<noteq> Finite 1"
  by (simp add: calculate_iou_wide_box)
    (simp add: wide_box_def make_box_def word_sless_alt int_area_def)

section \<open>frame_clean computes keep_first\<close>

lemma flagged_Nil [simp]: "flagged [] keep = []" "flagged bs [] = []"
  by (simp_all add: flagged_def)

lemma flagged_Cons [simp]:
  "flagged (b # bs) (k # keep) = (if k then b # flagged bs keep else flagged bs keep)"
  by (simp add: flagged_def)

lemma flagged_append:
  "length bs = length keep \<Longrightarrow>
   flagged (bs @ bs') (keep @ keep') = flagged bs keep @ flagged bs' keep'"
  by (simp add: flagged_def)

lemma flagged_replicate: "flagged bs (replicate (length bs) True) = bs"
  by (induction bs) simp_all

lemma flagged_filter:
  "flagged bs (map2 (\<lambda>c k. k \<and> P c) bs keep) = filter P (flagged bs keep)"
proof (induction bs arbitrary: keep)
  case Nil
  show ?case by simp
next
  case (Cons b bs)
  show ?case
    using Cons.IH by (cases keep) auto
qed

lemma clean_inner_length: "length (clean_inner bs t i j keep) = length keep"
proof (induction bs t i j keep rule: clean_inner.induct)
  case (1 bs t i j keep)
  show ?case
    using "1.IH" by (subst clean_inner.simps) simp
qed

lemma clean_inner_nth:
  "k < length keep \<Longrightarrow>
   clean_inner bs t i j keep ! k =
     (keep ! k \<and> \<not> (j \<le> k \<and> k < length bs \<and> f32_ge (calculate_iou (bs ! i) (bs ! k)) t))"
proof (induction bs t i j keep rule: clean_inner.induct)
  case (1 bs t i j keep)
  show ?case
  proof (cases "j < length bs")
    case True
    let ?keep = "if f32_ge (calculate_iou (bs ! i) (bs ! j)) t then keep[j := False] else keep"
    have "clean_inner bs t i j keep ! k = clean_inner bs t i (j + 1) ?keep ! k"
      using True by (subst clean_inner.simps) simp
    also have "\<dots> = (?keep ! k \<and>
        \<not> (j + 1 \<le> k \<and> k < length bs \<and> f32_ge (calculate_iou (bs ! i) (bs ! k)) t))"
      using "1.IH" [OF True] "1.prems" by simp
    also have "\<dots> = (keep ! k \<and>
        \<not> (j \<le> k \<and> k < length bs \<and> f32_ge (calculate_iou (bs ! i) (bs ! k)) t))"
      using "1.prems" True by (cases "k = j") (auto simp: nth_list_update)
    finally show ?thesis .
  next
    case False
    then show ?thesis
      by (subst clean_inner.simps) auto
  qed
qed

lemma clean_inner_take:
  "length keep = length bs \<Longrightarrow> take j (clean_inner bs t i j keep) = take j keep"
  by (rule nth_equalityI) (simp_all add: clean_inner_length clean_inner_nth)

lemma clean_inner_drop:
  assumes "length keep = length bs"
  shows "drop j (clean_inner bs t i j keep) =
    map2 (\<lambda>c k. k \<and> \<not> f32_ge (calculate_iou (bs ! i) c) t) (drop j bs) (drop j keep)"
  using assms by (intro nth_equalityI) (auto simp: clean_inner_length clean_inner_nth)

lemma clean_outer_length: "length (clean_outer bs t i keep) = length keep"
proof (induction bs t i keep rule: clean_outer.induct)
  case (1 bs t i keep)
  show ?case
    using "1.IH" by (subst clean_outer.simps) (simp add: clean_inner_length)
qed

lemma flagged_take_Suc:
  assumes "length keep = length bs" "i < length bs"
  shows "flagged (take (Suc i) bs) (take (Suc i) keep) =
    flagged (take i bs) (take i keep) @ (if keep ! i then [bs ! i] else [])"
  using assms by (simp add: take_Suc_conv_app_nth flagged_append)

lemma flagged_drop:
  assumes "length keep = length bs" "i < length bs"
  shows "flagged (drop i bs) (drop i keep) =
    (if keep ! i then bs ! i # flagged (drop (Suc i) bs) (drop (Suc i) keep)
     else flagged (drop (Suc i) bs) (drop (Suc i) keep))"
  using assms by (simp add: Cons_nth_drop_Suc [symmetric])

lemma clean_outer_flagged:
  "length keep = length bs \<Longrightarrow>
   flagged bs (clean_outer bs t i keep) =
     flagged (take i bs) (take i keep) @ keep_first t (flagged (drop i bs) (drop i keep))"
proof (induction bs t i keep rule: clean_outer.induct)
  case (1 bs t i keep)
  note len = "1.prems"
  show ?case
  proof (cases "i < length bs")
    case False
    then show ?thesis
      using len by (subst clean_outer.simps) simp
  next
    case True
    show ?thesis
    proof (cases "keep ! i")
      case False
      have "flagged bs (clean_outer bs t i keep) = flagged bs (clean_outer bs t (i + 1) keep)"
        using True False by (subst clean_outer.simps) simp
      also have "\<dots> = flagged (take (i + 1) bs) (take (i + 1) keep) @
          keep_first t (flagged (drop (i + 1) bs) (drop (i + 1) keep))"
        using "1.IH" (1) [OF True _ len] False by simp
      finally show ?thesis
        using False by (simp add: flagged_take_Suc [OF len True] flagged_drop [OF len True])
    next
      case keep: True
      let ?keep = "clean_inner bs t i (i + 1) keep"
      have len': "length ?keep = length bs"
        using len by (simp add: clean_inner_length)
      have "flagged bs (clean_outer bs t i keep) = flagged bs (clean_outer bs t (i + 1) ?keep)"
        using True keep by (subst clean_outer.simps) simp
      also have "\<dots> = flagged (take (i + 1) bs) (take (i + 1) ?keep) @
          keep_first t (flagged (drop (i + 1) bs) (drop (i + 1) ?keep))"
        using "1.IH" (2) [OF True _ len'] keep by simp
      also have "take (i + 1) ?keep = take (i + 1) keep"
        using len by (rule clean_inner_take)
      also have "flagged (drop (i + 1) bs) (drop (i + 1) ?keep) =
          filter (\<lambda>c. \<not> f32_ge (calculate_iou (bs ! i) c) t)
            (flagged (drop (i + 1) bs) (drop (i + 1) keep))"
        by (simp only: clean_inner_drop [OF len] flagged_filter)
      finally show ?thesis
        using keep by (simp add: flagged_take_Suc [OF len True] flagged_drop [OF len True])
    qed
  qed
qed

lemma clean_collect_flagged:
  "length keep = length bs \<Longrightarrow>
   clean_collect bs keep i acc = acc @ flagged (drop i bs) (drop i keep)"
proof (induction bs keep i acc rule: clean_collect.induct)
  case (1 bs keep i acc)
  show ?case
  proof (cases "i < length bs")
    case True
    then show ?thesis
      using "1.IH" [OF True "1.prems"] "1.prems"
      by (subst clean_collect.simps) (simp add: flagged_drop [OF "1.prems" True])
  next
    case False
    then show ?thesis
      using "1.prems" by (subst clean_collect.simps) simp
  qed
qed

lemma frame_clean_keep_first: "boxes (frame_clean f t) = keep_first t (boxes f)"
proof -
  let ?bs = "boxes f"
  let ?keep = "clean_outer ?bs t 0 (replicate (length ?bs) True)"
  have len: "length ?keep = length ?bs"
    by (simp add: clean_outer_length)
  have "boxes (frame_clean f t) = clean_collect ?bs ?keep 0 []"
    by (simp add: frame_clean_def Let_def)
  also have "\<dots> = flagged ?bs ?keep"
    using clean_collect_flagged [OF len, of 0 "[]"] by simp
  also have "\<dots> = keep_first t ?bs"
    using clean_outer_flagged [of "replicate (length ?bs) True" ?bs t 0]
    by (simp add: flagged_replicate)
  finally show ?thesis .
qed

lemma keep_first_set: "set (keep_first t bs) \<subseteq> set bs"
  by (induction t bs rule: keep_first.induct) auto

lemma keep_first_idem: "keep_first t (keep_first t bs) = keep_first t bs"
proof (induction t bs rule: keep_first.induct)
  case (1 t)
  show ?case by simp
next
  case (2 t b bs)
  let ?P = "\<lambda>c. \<not> f32_ge (calculate_iou b c) t"
  have "filter ?P (keep_first t (filter ?P bs)) = keep_first t (filter ?P bs)"
    using keep_first_set [of t "filter ?P bs"] by (intro filter_True) auto
  then show ?case
    using "2.IH" by simp
qed

text \<open>
  Claim C3. \<open>frame_clean\<close> is idempotent: cleaning a cleaned frame again with the same
  threshold changes nothing.
\<close>

theorem frame_clean_idempotent:
  "frame_clean (frame_clean f threshold) threshold = frame_clean f threshold"
proof -
  have "boxes (frame_clean (frame_clean f threshold) threshold) =
      boxes (frame_clean f threshold)"
    by (simp add: frame_clean_keep_first keep_first_idem)
  moreover have "frame_clean g threshold = g\<lparr>boxes := boxes (frame_clean g threshold)\<rparr>" for g
    by (simp add: frame_clean_def Let_def)
  ultimately show ?thesis
    by (metis frame.update_convs(2) frame.surjective frame.simps)
qed

section \<open>rgb2bgr: the refusal and the conversion\<close>

lemma rgb2bgr_loop_swaps:
  "0 \<le> i \<Longrightarrow> p = 3 * nat i \<Longrightarrow> 3 * nat n \<le> length d \<Longrightarrow>
   \<exists>d'. rgb2bgr_loop i n p d = Inr d' \<and> length d' = length d \<and>
     (\<forall>k. nat i \<le> k \<and> k < nat n \<longrightarrow>
        d' ! (3 * k) = d ! (3 * k + 2) \<and> d' ! (3 * k + 1) = d ! (3 * k + 1) \<and>
        d' ! (3 * k + 2) = d ! (3 * k)) \<and>
     (\<forall>j. j < length d \<and> (j < 3 * nat i \<or> 3 * nat n \<le> j) \<longrightarrow> d' ! j = d ! j)"
proof (induction i n p d rule: rgb2bgr_loop.induct)
  case (1 i n p d)
  show ?case
  proof (cases "i < n")
    case False
    then have "nat n \<le> nat i"
      by simp
    then show ?thesis
      using False by (subst rgb2bgr_loop.simps) auto
  next
    case True
    let ?d = "d[p := d ! (p + 2), p + 2 := d ! p]"
    have i_n: "nat i < nat n"
      using True "1.prems" by simp
    have inside: "p + 2 < length d"
      using i_n "1.prems" (2,3) by linarith
    have next_i: "nat (i + 1) = Suc (nat i)"
      using "1.prems" by simp
    have "\<exists>d'. rgb2bgr_loop (i + 1) n (p + 3) ?d = Inr d' \<and> length d' = length ?d \<and>
       (\<forall>k. nat (i + 1) \<le> k \<and> k < nat n \<longrightarrow>
          d' ! (3 * k) = ?d ! (3 * k + 2) \<and> d' ! (3 * k + 1) = ?d ! (3 * k + 1) \<and>
          d' ! (3 * k + 2) = ?d ! (3 * k)) \<and>
       (\<forall>j. j < length ?d \<and> (j < 3 * nat (i + 1) \<or> 3 * nat n \<le> j) \<longrightarrow> d' ! j = ?d ! j)"
      using "1.prems" by (intro "1.IH" [OF True inside]) (simp_all add: next_i)
    then obtain d' where run: "rgb2bgr_loop (i + 1) n (p + 3) ?d = Inr d'"
      and len: "length d' = length d"
      and later: "\<And>k. Suc (nat i) \<le> k \<Longrightarrow> k < nat n \<Longrightarrow>
          d' ! (3 * k) = ?d ! (3 * k + 2) \<and> d' ! (3 * k + 1) = ?d ! (3 * k + 1) \<and>
          d' ! (3 * k + 2) = ?d ! (3 * k)"
      and other: "\<And>j. j < length d \<Longrightarrow> j < 3 * Suc (nat i) \<or> 3 * nat n \<le> j \<Longrightarrow>
          d' ! j = ?d ! j"
      unfolding next_i by auto
    have result: "rgb2bgr_loop i n p d = Inr d'"
      using True inside run by (subst rgb2bgr_loop.simps) simp
    have swapped: "d' ! (3 * k) = d ! (3 * k + 2) \<and> d' ! (3 * k + 1) = d ! (3 * k + 1) \<and>
        d' ! (3 * k + 2) = d ! (3 * k)" if "nat i \<le> k" "k < nat n" for k
    proof (cases "k = nat i")
      case True
      then show ?thesis
        using other [of "3 * k"] other [of "3 * k + 1"] other [of "3 * k + 2"] inside "1.prems"
        by (simp add: nth_list_update)
    next
      case False
      then have "Suc (nat i) \<le> k"
        using that by simp
      then show ?thesis
        using later [of k] that "1.prems" by (simp add: nth_list_update)
    qed
    have kept: "d' ! j = d ! j" if "j < length d" "j < 3 * nat i \<or> 3 * nat n \<le> j" for j
      using other [of j] that i_n "1.prems" by (auto simp: nth_list_update)
    show ?thesis
      using result len swapped kept by blast
  qed
qed

text \<open>
  What \<open>rgb2bgr\<close> does in terms of the loop bound it computes, the 32-bit product
  \<open>height * width\<close>: when the buffer holds that many pixels of three bytes, the first
  and the last byte of each of them are swapped and nothing else changes.
\<close>

lemma rgb2bgr_wrapped:
  "(format im \<noteq> 1 \<longrightarrow> rgb2bgr im = Inr (False, im)) \<and>
   (format im = 1 \<and> 3 * nat (sint (height im * width im)) \<le> length (data im) \<longrightarrow>
      (\<exists>d. rgb2bgr im = Inr (True, im\<lparr>data := d, format := 2\<rparr>) \<and>
           length d = length (data im) \<and>
           (\<forall>k. k < nat (sint (height im * width im)) \<longrightarrow>
              d ! (3 * k) = data im ! (3 * k + 2) \<and>
              d ! (3 * k + 1) = data im ! (3 * k + 1) \<and>
              d ! (3 * k + 2) = data im ! (3 * k)) \<and>
           (\<forall>j. 3 * nat (sint (height im * width im)) \<le> j \<and> j < length (data im) \<longrightarrow>
              d ! j = data im ! j)))"
proof (intro conjI impI)
  assume "format im \<noteq> 1"
  then show "rgb2bgr im = Inr (False, im)"
    by (simp add: rgb2bgr_def)
next
  let ?n = "sint (height im * width im)"
  assume "format im = 1 \<and> 3 * nat ?n \<le> length (data im)"
  then have rgb: "format im = 1" and fits: "3 * nat ?n \<le> length (data im)"
    by simp_all
  obtain d where run: "rgb2bgr_loop 0 ?n 0 (data im) = Inr d"
    and len: "length d = length (data im)"
    and swapped: "\<forall>k. nat 0 \<le> k \<and> k < nat ?n \<longrightarrow>
        d ! (3 * k) = data im ! (3 * k + 2) \<and> d ! (3 * k + 1) = data im ! (3 * k + 1) \<and>
        d ! (3 * k + 2) = data im ! (3 * k)"
    and kept: "\<forall>j. j < length (data im) \<and> (j < 3 * nat 0 \<or> 3 * nat ?n \<le> j) \<longrightarrow>
        d ! j = data im ! j"
    using rgb2bgr_loop_swaps [of 0 0 ?n "data im"] fits by auto
  have "rgb2bgr im = Inr (True, im\<lparr>data := d, format := 2\<rparr>)"
    using rgb run by (simp add: rgb2bgr_def)
  then show "\<exists>d. rgb2bgr im = Inr (True, im\<lparr>data := d, format := 2\<rparr>) \<and>
           length d = length (data im) \<and>
           (\<forall>k. k < nat ?n \<longrightarrow>
              d ! (3 * k) = data im ! (3 * k + 2) \<and>
              d ! (3 * k + 1) = data im ! (3 * k + 1) \<and>
              d ! (3 * k + 2) = data im ! (3 * k)) \<and>
           (\<forall>j. 3 * nat ?n \<le> j \<and> j < length (data im) \<longrightarrow> d ! j = data im ! j)"
    using len swapped kept by auto
qed

lemma sint_pixels: "fits_int (pixels im) \<Longrightarrow> sint (height im * width im) = pixels im"
  by (simp add: fits_int_def pixels_def sint_word_ariths signed_take_bit_int_eq_self)

text \<open>
  Claim C9, as the code has it. For an image whose format is not RGB (\<open>format \<noteq> 1\<close>),
  \<open>rgb2bgr\<close> returns false and leaves the image as it is: data, width, height and
  format. For an RGB image whose number of pixels \<open>height * width\<close> fits an int and
  whose buffer holds that many pixels of three bytes each, it returns true, sets the
  format to BGR (\<open>2\<close>), swaps the first and the last byte of every pixel, and changes
  nothing else: the middle byte of each pixel, the bytes after the last pixel, the width
  and the height.
\<close>

theorem rgb2bgr_converts:
  "(format im \<noteq> 1 \<longrightarrow> rgb2bgr im = Inr (False, im)) \<and>
   (format im = 1 \<and> fits_int (pixels im) \<and> 3 * nat (pixels im) \<le> length (data im) \<longrightarrow>
      (\<exists>d. rgb2bgr im = Inr (True, im\<lparr>data := d, format := 2\<rparr>) \<and>
           length d = length (data im) \<and>
           (\<forall>k. k < nat (pixels im) \<longrightarrow>
              d ! (3 * k) = data im ! (3 * k + 2) \<and>
              d ! (3 * k + 1) = data im ! (3 * k + 1) \<and>
              d ! (3 * k + 2) = data im ! (3 * k)) \<and>
           (\<forall>j. 3 * nat (pixels im) \<le> j \<and> j < length (data im) \<longrightarrow>
              d ! j = data im ! j)))"
proof (intro conjI impI)
  assume "format im \<noteq> 1"
  then show "rgb2bgr im = Inr (False, im)"
    by (simp add: rgb2bgr_def)
next
  assume rgb: "format im = 1 \<and> fits_int (pixels im) \<and> 3 * nat (pixels im) \<le> length (data im)"
  then have count: "sint (height im * width im) = pixels im"
    by (simp add: sint_pixels)
  have "format im = 1 \<and> 3 * nat (sint (height im * width im)) \<le> length (data im) \<longrightarrow>
      (\<exists>d. rgb2bgr im = Inr (True, im\<lparr>data := d, format := 2\<rparr>) \<and>
           length d = length (data im) \<and>
           (\<forall>k. k < nat (sint (height im * width im)) \<longrightarrow>
              d ! (3 * k) = data im ! (3 * k + 2) \<and>
              d ! (3 * k + 1) = data im ! (3 * k + 1) \<and>
              d ! (3 * k + 2) = data im ! (3 * k)) \<and>
           (\<forall>j. 3 * nat (sint (height im * width im)) \<le> j \<and> j < length (data im) \<longrightarrow>
              d ! j = data im ! j))"
    using rgb2bgr_wrapped [of im] by (rule conjunct2)
  then show "\<exists>d. rgb2bgr im = Inr (True, im\<lparr>data := d, format := 2\<rparr>) \<and>
           length d = length (data im) \<and>
           (\<forall>k. k < nat (pixels im) \<longrightarrow>
              d ! (3 * k) = data im ! (3 * k + 2) \<and>
              d ! (3 * k + 1) = data im ! (3 * k + 1) \<and>
              d ! (3 * k + 2) = data im ! (3 * k)) \<and>
           (\<forall>j. 3 * nat (pixels im) \<le> j \<and> j < length (data im) \<longrightarrow> d ! j = data im ! j)"
    unfolding count using rgb by blast
qed

theorem rgb2bgr_converts_witness:
  "format test_img = 1 \<and> pixels test_img = 4 \<and>
   3 * nat (pixels test_img) \<le> length (data test_img) \<and>
   (\<exists>d. rgb2bgr test_img = Inr (True, test_img\<lparr>data := d, format := 2\<rparr>) \<and>
        length d = length (data test_img) \<and> d ! 0 = data test_img ! 2) \<and>
   format test_img_bgr \<noteq> 1 \<and>
   rgb2bgr test_img_bgr = Inr (False, test_img_bgr)"
proof -
  let ?n = "nat (pixels test_img)"
  have rgb: "format test_img = 1"
    and count: "pixels test_img = 4"
    and bgr: "format test_img_bgr \<noteq> 1"
    by (simp_all add: test_img_def test_img_bgr_def pixels_def)
  have fits: "fits_int (pixels test_img)"
    and holds: "3 * ?n \<le> length (data test_img)"
    and pixel: "0 < ?n"
    unfolding count by (simp_all add: fits_int_def test_img_def)
  have "format test_img = 1 \<and> fits_int (pixels test_img) \<and>
        3 * ?n \<le> length (data test_img) \<longrightarrow>
      (\<exists>d. rgb2bgr test_img = Inr (True, test_img\<lparr>data := d, format := 2\<rparr>) \<and>
           length d = length (data test_img) \<and>
           (\<forall>k. k < ?n \<longrightarrow>
              d ! (3 * k) = data test_img ! (3 * k + 2) \<and>
              d ! (3 * k + 1) = data test_img ! (3 * k + 1) \<and>
              d ! (3 * k + 2) = data test_img ! (3 * k)) \<and>
           (\<forall>j. 3 * ?n \<le> j \<and> j < length (data test_img) \<longrightarrow> d ! j = data test_img ! j))"
    using rgb2bgr_converts [of test_img] by (rule conjunct2)
  then obtain d where run: "rgb2bgr test_img = Inr (True, test_img\<lparr>data := d, format := 2\<rparr>)"
    and len: "length d = length (data test_img)"
    and swapped: "\<forall>k. k < ?n \<longrightarrow>
        d ! (3 * k) = data test_img ! (3 * k + 2) \<and>
        d ! (3 * k + 1) = data test_img ! (3 * k + 1) \<and>
        d ! (3 * k + 2) = data test_img ! (3 * k)"
    using rgb fits holds by blast
  have "d ! (3 * 0) = data test_img ! (3 * 0 + 2)"
    using swapped pixel by blast
  then have first: "d ! 0 = data test_img ! 2"
    by (simp add: numeral_2_eq_2)
  have "format test_img_bgr \<noteq> 1 \<longrightarrow> rgb2bgr test_img_bgr = Inr (False, test_img_bgr)"
    using rgb2bgr_converts [of test_img_bgr] by (rule conjunct1)
  then have unchanged: "rgb2bgr test_img_bgr = Inr (False, test_img_bgr)"
    using bgr by blast
  show ?thesis
    using rgb count holds run len first bgr unchanged by blast
qed

text \<open>
  Claim C9 as stated fails: for the RGB image of 65536 by 65536 pixels the int product
  \<open>height * width\<close> is \<open>0\<close>, the loop does not run, and \<open>rgb2bgr\<close> returns true and
  sets the format to BGR although no pixel is swapped: the first pixel is still
  \<open>(1, 2, 3)\<close>.
\<close>

theorem rgb2bgr_converts_counterexample:
  "format huge_img = 1 \<and> pixels huge_img = 2 ^ 32 \<and>
   length (data huge_img) = 3 * 2 ^ 32 \<and>
   rgb2bgr huge_img = Inr (True, huge_img\<lparr>format := 2\<rparr>) \<and>
   data huge_img ! 0 = 1 \<and> data huge_img ! 2 = 3"
proof -
  have "sint (height huge_img * width huge_img) = 0"
    by (simp add: huge_img_def)
  then have "rgb2bgr huge_img = Inr (True, huge_img\<lparr>format := 2\<rparr>)"
    by (simp add: rgb2bgr_def rgb2bgr_loop.simps [of 0 0] huge_img_def)
  then show ?thesis
    by (simp add: huge_img_def pixels_def)
qed

end
